theory Spec2Isabelle
  imports Main
begin

section \<open>Python strings\<close>

text \<open>
  A Python \<open>str\<close> is a sequence of Unicode code points, and \<open>len\<close> counts code points.
  A string is therefore a list of code points, each a natural number; \<open>u\<close> turns an
  ASCII literal into such a list.
\<close>

type_synonym ustr = "nat list"

definition u :: "string \<Rightarrow> ustr" where
  "u s = map of_char s"

text \<open>The line boundaries of \<open>str.splitlines\<close>.\<close>

definition is_linebreak :: "nat \<Rightarrow> bool" where
  "is_linebreak c = (c = 10 \<or> c = 11 \<or> c = 12 \<or> c = 13 \<or> c = 28 \<or> c = 29 \<or> c = 30
     \<or> c = 133 \<or> c = 8232 \<or> c = 8233)"

text \<open>
  \<open>str.splitlines()\<close>: the lines without their terminators; \<open>\r\n\<close> is one
  terminator; a terminator at the very end opens no further line.
\<close>

fun splitlines :: "ustr \<Rightarrow> ustr list" where
  "splitlines [] = []"
| "splitlines (c # cs) =
     (if c = 13 then
        (case cs of
           [] \<Rightarrow> [[]]
         | d # ds \<Rightarrow> if d = 10 then [] # splitlines ds else [] # splitlines cs)
      else if is_linebreak c then [] # splitlines cs
      else (case splitlines cs of [] \<Rightarrow> [[c]] | l # ls \<Rightarrow> (c # l) # ls))"

text \<open>\<open>sep.join(xs)\<close>.\<close>

fun join :: "ustr \<Rightarrow> ustr list \<Rightarrow> ustr" where
  "join sep [] = []"
| "join sep [x] = x"
| "join sep (x # y # ys) = x @ sep @ join sep (y # ys)"

text \<open>\<open>s.startswith(p)\<close> and \<open>p in s\<close>.\<close>

definition startswith :: "ustr \<Rightarrow> ustr \<Rightarrow> bool" where
  "startswith s p = (take (length p) s = p)"

fun contains :: "ustr \<Rightarrow> ustr \<Rightarrow> bool" where
  "contains [] p = (p = [])"
| "contains (c # cs) p = (startswith (c # cs) p \<or> contains cs p)"

text \<open>
  The characters for which \<open>str.isspace\<close> holds; \<open>str.strip()\<close>, \<open>str.split()\<close>
  and the regular expression class \<open>\s\<close> all use this set.
\<close>

definition py_isspace :: "nat \<Rightarrow> bool" where
  "py_isspace c = ((9 \<le> c \<and> c \<le> 13) \<or> (28 \<le> c \<and> c \<le> 32) \<or> c = 133 \<or> c = 160
     \<or> c = 5760 \<or> (8192 \<le> c \<and> c \<le> 8202) \<or> c = 8232 \<or> c = 8233 \<or> c = 8239
     \<or> c = 8287 \<or> c = 12288)"

definition strip :: "ustr \<Rightarrow> ustr" where
  "strip s = rev (dropWhile py_isspace (rev (dropWhile py_isspace s)))"

text \<open>\<open>s.split()\<close>: the maximal runs of non-space characters.\<close>

fun split_acc :: "ustr \<Rightarrow> ustr \<Rightarrow> ustr list" where
  "split_acc cur [] = (if cur = [] then [] else [cur])"
| "split_acc cur (c # cs) =
     (if py_isspace c then (if cur = [] then split_acc [] cs else cur # split_acc [] cs)
      else split_acc (cur @ [c]) cs)"

definition split_ws :: "ustr \<Rightarrow> ustr list" where
  "split_ws s = split_acc [] s"

text \<open>
  \<open>s.index(c)\<close> for a character that occurs in \<open>s\<close>, and the slice \<open>s[a:b]\<close> for
  indices within the string (empty when \<open>b \<le> a\<close>).
\<close>

definition index :: "ustr \<Rightarrow> nat \<Rightarrow> nat" where
  "index s c = length (takeWhile (\<lambda>x. x \<noteq> c) s)"

definition slice :: "ustr \<Rightarrow> nat \<Rightarrow> nat \<Rightarrow> ustr" where
  "slice s a b = take (b - a) (drop a s)"

subsection \<open>Integers as text\<close>

text \<open>
  \<open>int(s)\<close> accepts, after stripping whitespace, an optional sign and decimal digits
  with single underscores between them. Its digits are all characters of Unicode
  category Nd; that table belongs to the Python runtime, so the digit valuation \<open>dv\<close>
  (the decimal value of a digit character, \<open>None\<close> for any other character) is a
  parameter. \<open>ascii_dv\<close> is its restriction to \<open>0\<close>..\<open>9\<close>, and \<open>dv_ok\<close> says that a
  valuation agrees with it there.
\<close>

type_synonym digit_val = "nat \<Rightarrow> nat option"

definition ascii_dv :: digit_val where
  "ascii_dv c = (if 48 \<le> c \<and> c \<le> 57 then Some (c - 48) else None)"

definition dv_ok :: "digit_val \<Rightarrow> bool" where
  "dv_ok dv = (\<forall>d < 10. dv (48 + d) = Some d)"

fun int_digits :: "digit_val \<Rightarrow> nat \<Rightarrow> ustr \<Rightarrow> nat option" where
  "int_digits dv acc [] = Some acc"
| "int_digits dv acc (c # cs) =
     (if c = 95 then
        (case cs of
           [] \<Rightarrow> None
         | d # ds \<Rightarrow>
             (if d = 95 then None
              else case dv d of None \<Rightarrow> None | Some v \<Rightarrow> int_digits dv (10 * acc + v) ds))
      else case dv c of None \<Rightarrow> None | Some v \<Rightarrow> int_digits dv (10 * acc + v) cs)"

definition int_unsigned :: "digit_val \<Rightarrow> ustr \<Rightarrow> nat option" where
  "int_unsigned dv s =
     (case s of
        [] \<Rightarrow> None
      | c # cs \<Rightarrow>
          (if c = 95 then None
           else case dv c of None \<Rightarrow> None | Some v \<Rightarrow> int_digits dv v cs))"

definition py_int :: "digit_val \<Rightarrow> ustr \<Rightarrow> int option" where
  "py_int dv s =
     (case strip s of
        [] \<Rightarrow> None
      | c # cs \<Rightarrow>
          (if c = 45 then map_option (\<lambda>n. - int n) (int_unsigned dv cs)
           else if c = 43 then map_option int (int_unsigned dv cs)
           else map_option int (int_unsigned dv (c # cs))))"

text \<open>The decimal digits of a natural number, and the format \<open>{n:03d}\<close>.\<close>

fun dec :: "nat \<Rightarrow> ustr" where
  "dec n = (if n < 10 then [48 + n] else dec (n div 10) @ [48 + n mod 10])"

declare dec.simps [simp del]


section \<open>The queue store (queue_io.py)\<close>

record QueueItem =
  item_id :: int
  status :: ustr
  type :: ustr
  lang :: ustr
  source :: ustr
  item_note :: ustr
  item_text :: ustr

text \<open>
  The fields \<open>note\<close> and \<open>text\<close> of the source are \<open>item_note\<close> and \<open>item_text\<close> here.

  \<open>parse_queue_md\<close> reads the file and walks over its lines with four variables:
  \<open>header_lines\<close>, \<open>items\<close>, \<open>current\<close> and \<open>in_text\<close>. They are the parser state.
  \<open>int(parts[2])\<close> raises \<open>ValueError\<close> and \<open>parts[2]\<close> raises \<open>IndexError\<close>; nothing
  catches them, so either one ends the parse.
\<close>

datatype parse_error = ValueError ustr | IndexError

record pstate =
  header_lines :: "ustr list"
  items :: "QueueItem list"
  current :: "QueueItem option"
  in_text :: bool

definition flush_current :: "pstate \<Rightarrow> pstate" where
  "flush_current st =
     (case current st of
        None \<Rightarrow> st
      | Some c \<Rightarrow> st\<lparr>items := items st @ [c], current := None\<rparr>)"

definition marker_status :: "ustr \<Rightarrow> ustr" where
  "marker_status line =
     (if 91 \<in> set line \<and> 93 \<in> set line
      then strip (slice line (index line 91 + 1) (index line 93))
      else u ''pending'')"

definition set_field :: "QueueItem \<Rightarrow> ustr \<Rightarrow> ustr \<Rightarrow> QueueItem" where
  "set_field cur key val =
     (if key = u ''type'' then cur\<lparr>type := val\<rparr>
      else if key = u ''lang'' then cur\<lparr>lang := val\<rparr>
      else if key = u ''source'' then cur\<lparr>source := val\<rparr>
      else if key = u ''note'' then cur\<lparr>item_note := val\<rparr>
      else cur)"

definition parse_line :: "digit_val \<Rightarrow> pstate \<Rightarrow> ustr \<Rightarrow> parse_error + pstate" where
  "parse_line dv st line =
     (if startswith line (u ''## Item '') then
        (let st1 = (flush_current st)\<lparr>in_text := False\<rparr>;
             parts = split_ws line
         in if length parts \<le> 2 then Inl IndexError
            else case py_int dv (parts ! 2) of
                   None \<Rightarrow> Inl (ValueError (parts ! 2))
                 | Some n \<Rightarrow>
                     Inr (st1\<lparr>current := Some \<lparr>item_id = n, status = marker_status line,
                            type = [], lang = [], source = [], item_note = [],
                            item_text = []\<rparr>\<rparr>))
      else case current st of
        None \<Rightarrow> Inr (st\<lparr>header_lines := header_lines st @ [line]\<rparr>)
      | Some cur \<Rightarrow>
          if startswith line (u ''text:'') then
            Inr (st\<lparr>in_text := True, current := Some (cur\<lparr>item_text := []\<rparr>)\<rparr>)
          else if in_text st then
            Inr (st\<lparr>current := Some (cur\<lparr>item_text :=
                   (if item_text cur \<noteq> [] then item_text cur @ [10] @ line else line)\<rparr>)\<rparr>)
          else if 58 \<in> set line then
            Inr (st\<lparr>current := Some (set_field cur
                   (strip (takeWhile (\<lambda>x. x \<noteq> 58) line))
                   (strip (tl (dropWhile (\<lambda>x. x \<noteq> 58) line))))\<rparr>)
          else Inr st)"

fun parse_lines :: "digit_val \<Rightarrow> pstate \<Rightarrow> ustr list \<Rightarrow> parse_error + pstate" where
  "parse_lines dv st [] = Inr st"
| "parse_lines dv st (l # ls) =
     (case parse_line dv st l of
        Inl e \<Rightarrow> Inl e
      | Inr st' \<Rightarrow> parse_lines dv st' ls)"

definition init_pstate :: pstate where
  "init_pstate = \<lparr>header_lines = [], items = [], current = None, in_text = False\<rparr>"

text \<open>
  The argument is the text of the file. Reading in text mode turns \<open>\r\n\<close> and \<open>\r\<close>
  into \<open>\n\<close>, which leaves the result of \<open>splitlines\<close> as it is.
\<close>

definition parse_queue_md :: "digit_val \<Rightarrow> ustr \<Rightarrow> parse_error + (ustr list \<times> QueueItem list)" where
  "parse_queue_md dv content =
     (case parse_lines dv init_pstate (splitlines content) of
        Inl e \<Rightarrow> Inl e
      | Inr st \<Rightarrow> Inr (header_lines (flush_current st), items (flush_current st)))"



text \<open>
  Vocabulary for the properties of the parser: a marker line, the integer its third
  whitespace-separated token denotes (\<open>None\<close> when the token is missing or \<open>int\<close>
  rejects it), the items a parser state holds, finished or open, and the two fields of
  an item that its marker line fixes.
\<close>

definition marker_line :: "ustr \<Rightarrow> bool" where
  "marker_line l = startswith l (u ''## Item '')"

definition marker_id :: "digit_val \<Rightarrow> ustr \<Rightarrow> int option" where
  "marker_id dv l =
     (if length (split_ws l) \<le> 2 then None else py_int dv (split_ws l ! 2))"

definition all_items :: "pstate \<Rightarrow> QueueItem list" where
  "all_items st = items st @ (case current st of None \<Rightarrow> [] | Some c \<Rightarrow> [c])"

definition id_status :: "QueueItem \<Rightarrow> int \<times> ustr" where
  "id_status it = (item_id it, status it)"

section \<open>Batch notes (batch_x_learning.py)\<close>

text \<open>
  \<open>CATEGORY_RULES\<close> is a dictionary literal; iteration follows the order in which it is
  written, so it is an association list. The keywords written in Chinese are given by
  their code points: the first two of \<open>install-debug\<close> are U+5B89 U+88C5 and
  U+914D U+7F6E.
\<close>

definition CATEGORY_RULES :: "(ustr \<times> ustr list) list" where
  "CATEGORY_RULES =
    [(u ''install-debug'',
       [[23433, 35013], [37197, 32622], [25253, 38169], u ''debug'', u ''error'', u ''setup'',
        u ''deploy'', [36816, 34892], [21551, 21160]]),
     (u ''architecture-principles'',
       [[21407, 29702], [26550, 26500], u ''architecture'', u ''protocol'', u ''cdp'',
        [26426, 21046], u ''design'']),
     (u ''security-risk'',
       [[23433, 20840], [28431, 27934], u ''risk'', [39118, 25511], [26292, 38706],
        [35748, 35777], [26435, 38480], [25915, 20987]]),
     (u ''growth-content'',
       [[29190, 27454], [20869, 23481], [36816, 33829], [27969, 37327], [36873, 39064],
        [32467, 26500], [36716, 21270], [33258, 23186, 20307]]),
     (u ''tools-release'',
       [[21457, 24067], [26356, 26032], u ''release'', u ''new'', [27169, 22411],
        [21151, 33021], [29256, 26412]])]"

text \<open>
  \<open>str.lower()\<close> on the characters this development meets: an ASCII capital becomes
  the small letter, and every other code point stays (ASCII otherwise, and the CJK
  ideographs of the keywords, which have no case). Cased letters outside ASCII are not
  modelled.
\<close>

definition lower :: "ustr \<Rightarrow> ustr" where
  "lower s = map (\<lambda>c. if 65 \<le> c \<and> c \<le> 90 then c + 32 else c) s"

fun first_category :: "(ustr \<times> ustr list) list \<Rightarrow> ustr \<Rightarrow> ustr" where
  "first_category [] low = u ''uncategorized''"
| "first_category ((cat, keys) # rules) low =
     (if \<exists>k\<in>set keys. contains low (lower k) then cat else first_category rules low)"

definition categorize :: "ustr \<Rightarrow> ustr" where
  "categorize txt = first_category CATEGORY_RULES (lower txt)"

text \<open>
  \<open>re.sub(r"\s+", " ", s)\<close>: every maximal run of whitespace becomes one space. The
  flag says whether the previous character was whitespace.
\<close>

fun collapse_ws :: "bool \<Rightarrow> ustr \<Rightarrow> ustr" where
  "collapse_ws in_ws [] = []"
| "collapse_ws in_ws (c # cs) =
     (if py_isspace c then (if in_ws then collapse_ws True cs else 32 # collapse_ws True cs)
      else c # collapse_ws False cs)"

text \<open>The slice \<open>t[:k]\<close>, where a negative \<open>k\<close> counts from the end.\<close>

definition slice_to :: "ustr \<Rightarrow> int \<Rightarrow> ustr" where
  "slice_to t k = (if 0 \<le> k then take (nat k) t else take (length t - nat (- k)) t)"

definition summarize :: "ustr \<Rightarrow> int \<Rightarrow> ustr" where
  "summarize txt limit =
     (let t = strip (collapse_ws False txt)
      in if int (length t) \<le> limit then t else slice_to t (limit - 1) @ [8230])"

text \<open>
  \<open>chunk_text\<close>: the loop over the lines carries \<open>chunks\<close>, \<open>buf\<close> and \<open>size\<close> (here \<open>sz\<close>).
\<close>

fun chunk_loop :: "int \<Rightarrow> ustr list \<Rightarrow> ustr list \<Rightarrow> nat \<Rightarrow> ustr list
    \<Rightarrow> ustr list \<times> ustr list \<times> nat" where
  "chunk_loop max_chars chunks buf sz [] = (chunks, buf, sz)"
| "chunk_loop max_chars chunks buf sz (line # rest) =
     (let add = length line + 1
      in if int (sz + add) > max_chars \<and> buf \<noteq> []
         then chunk_loop max_chars (chunks @ [join [10] buf]) [line] add rest
         else chunk_loop max_chars chunks (buf @ [line]) (sz + add) rest)"

definition chunk_text :: "ustr \<Rightarrow> int \<Rightarrow> ustr list" where
  "chunk_text txt max_chars =
     (case chunk_loop max_chars [] [] 0 (splitlines txt) of
        (chunks, buf, sz) \<Rightarrow> if buf \<noteq> [] then chunks @ [join [10] buf] else chunks)"

section \<open>The knowledge base (learn_from_capture.py)\<close>

text \<open>
  The knowledge-base file is the text written to it, or \<open>None\<close> while the file does
  not exist; \<open>kb_writes\<close> records every write made to it, in order. The file is
  written in text mode on a system whose line separator is the newline, so that what
  is written is stored as it is, and the model takes every write to succeed (the text
  is one that UTF-8 can encode). Reading in text mode (\<open>read_text\<close>) gives the stored
  text with universal newlines: \<open>\r\n\<close> and a lone \<open>\r\<close> are read as \<open>\n\<close>.

  Of the capture dictionary, \<open>_append_kb\<close> reads \<open>target_status_id\<close>, \<open>url\<close> and
  \<open>main.author\<close>, each with the default \<open>""\<close>; the record holds the text that the
  f-strings put into the entry (\<open>data_url\<close> for \<open>url\<close>, \<open>data_author\<close> for
  \<open>main.author\<close>).
\<close>

fun read_newlines :: "ustr \<Rightarrow> ustr" where
  "read_newlines [] = []"
| "read_newlines (c # cs) =
     (if c = 13 then
        (case cs of
           [] \<Rightarrow> [10]
         | d # ds \<Rightarrow> if d = 10 then 10 # read_newlines ds else 10 # read_newlines cs)
      else c # read_newlines cs)"

datatype file_write = WriteText ustr | Append ustr

record kb_file =
  kb_content :: "ustr option"
  kb_writes :: "file_write list"

record capture =
  target_status_id :: ustr
  data_url :: ustr
  data_author :: ustr

definition kb_marker :: "ustr \<Rightarrow> ustr" where
  "kb_marker sid = u ''<!-- status_id:'' @ sid @ u '' -->''"

definition kb_entry_lines :: "capture \<Rightarrow> ustr list \<Rightarrow> ustr \<Rightarrow> ustr list" where
  "kb_entry_lines data points learned_path =
     [kb_marker (target_status_id data),
      u ''## '' @ target_status_id data,
      u ''- source_url: '' @ data_url data,
      u ''- author: '' @ data_author data,
      u ''- learned_note: '' @ learned_path]
     @ (if points \<noteq> [] then u ''- top_points:'' # map (\<lambda>p. u ''  - '' @ p) (take 5 points)
        else [])
     @ [[]]"

definition write_text :: "kb_file \<Rightarrow> ustr \<Rightarrow> kb_file" where
  "write_text f t = \<lparr>kb_content = Some t, kb_writes = kb_writes f @ [WriteText t]\<rparr>"

definition append_text :: "kb_file \<Rightarrow> ustr \<Rightarrow> kb_file" where
  "append_text f t =
     \<lparr>kb_content = Some ((case kb_content f of None \<Rightarrow> [] | Some old \<Rightarrow> old) @ t),
      kb_writes = kb_writes f @ [Append t]\<rparr>"

definition append_kb :: "kb_file \<Rightarrow> capture \<Rightarrow> ustr list \<Rightarrow> ustr \<Rightarrow> bool \<times> kb_file" where
  "append_kb kb data points learned_path =
     (let marker = kb_marker (target_status_id data)
      in case kb_content kb of
           Some stored \<Rightarrow>
             if contains (read_newlines stored) marker then (False, kb)
             else (True, append_text (append_text kb
                     (join [10] (kb_entry_lines data points learned_path))) [10])
         | None \<Rightarrow>
             (True, append_text (append_text (write_text kb (u ''# X Lessons KB'' @ [10, 10]))
                     (join [10] (kb_entry_lines data points learned_path))) [10]))"

text \<open>
  Running \<open>_append_kb\<close> for one capture after another on the same file, with the
  results in order; and the number of places at which a text occurs in another.
\<close>

fun append_kb_all :: "kb_file \<Rightarrow> (capture \<times> ustr list \<times> ustr) list \<Rightarrow> bool list \<times> kb_file" where
  "append_kb_all kb [] = ([], kb)"
| "append_kb_all kb ((data, points, learned_path) # calls) =
     (case append_kb kb data points learned_path of
        (r, kb') \<Rightarrow> (case append_kb_all kb' calls of (rs, kb'') \<Rightarrow> (r # rs, kb'')))"

fun occurrences :: "ustr \<Rightarrow> ustr \<Rightarrow> nat" where
  "occurrences [] p = (if p = [] then 1 else 0)"
| "occurrences (c # cs) p = (if startswith (c # cs) p then 1 else 0) + occurrences cs p"

text \<open>The capture text of the categorizer and summarizer scenario.\<close>

definition scenario_text :: ustr where
  "scenario_text =
     u ''step 1: '' @ [23433, 35013] @ [10] @ u ''step 2: '' @ [37197, 32622] @ [10]"

text \<open>
  Sample data: no knowledge-base file yet, two captures of status 1, the second with
  the marker text as its author, and a capture whose status id ends in a carriage
  return.
\<close>

definition kb_absent :: kb_file where
  "kb_absent = \<lparr>kb_content = None, kb_writes = []\<rparr>"

definition capture_one :: capture where
  "capture_one = \<lparr>target_status_id = u ''1'', data_url = u ''https://x.com/a/status/1'',
     data_author = u ''a''\<rparr>"

definition capture_cr :: capture where
  "capture_cr = \<lparr>target_status_id = u ''1'' @ [13], data_url = u ''https://x.com/a/status/1'',
     data_author = u ''a''\<rparr>"

definition capture_marker_author :: capture where
  "capture_marker_author = \<lparr>target_status_id = u ''1'',
     data_url = u ''https://x.com/a/status/1'', data_author = u ''<!-- status_id:1 -->''\<rparr>"

text \<open>
  The size that \<open>chunk_text\<close> counts for a buffer of lines, and a sample text of three
  lines.
\<close>

definition lines_size :: "ustr list \<Rightarrow> nat" where
  "lines_size ls = sum_list (map (\<lambda>l. length l + 1) ls)"

definition chunk_sample :: ustr where
  "chunk_sample = u ''aaa'' @ [10] @ u ''bb'' @ [10] @ u ''c''"

section \<open>The capture retry protocol (read_x_post.py)\<close>

text \<open>
  Of an article node the lookup reads two things: the status id of its time permalink
  (\<open>_status_from_time_permalink\<close>, the empty string when there is none) and its status
  links (\<open>_article_status_links\<close>, pairs of status id and href). The two
  \<open>RuntimeError\<close>s that \<open>_find_target_article\<close> raises are told apart by their message.
\<close>

record article =
  time_sid :: ustr
  status_links :: "(ustr \<times> ustr) list"

datatype find_error = NoArticleFound | TargetNotFound ustr

definition find_target_article :: "article list \<Rightarrow> ustr \<Rightarrow> find_error + article" where
  "find_target_article articles status_id =
     (if articles = [] then Inl NoArticleFound
      else if status_id = [] then Inr (hd articles)
      else case find (\<lambda>art. time_sid art \<noteq> [] \<and> time_sid art = status_id) articles of
             Some art \<Rightarrow> Inr art
           | None \<Rightarrow>
               (case find (\<lambda>art. \<exists>(link_sid, href)\<in>set (status_links art). link_sid = status_id)
                       articles of
                  Some art \<Rightarrow> Inr art
                | None \<Rightarrow> Inl (TargetNotFound status_id)))"

text \<open>
  The page is the browser's side of the protocol: \<open>view k\<close> is the list of article nodes
  mounted after \<open>k\<close> wheel steps from the top of the feed, \<open>position\<close> the number of
  wheel steps since the last press of Home, and \<open>wheel_count\<close> the number of wheel
  operations performed on the page. The waits change nothing, and the key press and
  the wheel are taken to succeed (the code ignores their exceptions).
\<close>

record page =
  view :: "nat \<Rightarrow> article list"
  position :: nat
  wheel_count :: nat

definition page_articles :: "page \<Rightarrow> article list" where
  "page_articles p = view p (position p)"

definition press_home :: "page \<Rightarrow> page" where
  "press_home p = p\<lparr>position := 0\<rparr>"

definition mouse_wheel :: "page \<Rightarrow> page" where
  "mouse_wheel p = p\<lparr>position := position p + 1, wheel_count := wheel_count p + 1\<rparr>"

text \<open>
  The loop \<open>for i in range(attempts)\<close>, by the number of iterations still to run:
  \<open>i == attempts - 1\<close> holds in the last one. After the loop the last error is raised.
\<close>

fun retry_loop :: "nat \<Rightarrow> find_error option \<Rightarrow> page \<Rightarrow> ustr \<Rightarrow> (find_error + article) \<times> page" where
  "retry_loop 0 last_err p status_id =
     (case last_err of
        Some e \<Rightarrow> (Inl e, p)
      | None \<Rightarrow> (Inl (TargetNotFound status_id), p))"
| "retry_loop (Suc k) last_err p status_id =
     (case find_target_article (page_articles p) status_id of
        Inr art \<Rightarrow> (Inr art, p)
      | Inl exc \<Rightarrow>
          if k = 0 then retry_loop 0 (Some exc) p status_id
          else retry_loop k (Some exc) (mouse_wheel p) status_id)"

definition find_target_article_with_retries :: "page \<Rightarrow> ustr \<Rightarrow> (find_error + article) \<times> page" where
  "find_target_article_with_retries p status_id = retry_loop 8 None (press_home p) status_id"

text \<open>
  The target article node is an article whose time permalink is the status id; an
  article mentions the status id when one of its status links carries it.
\<close>

definition target_node_on_page :: "article list \<Rightarrow> ustr \<Rightarrow> bool" where
  "target_node_on_page articles status_id = (\<exists>art\<in>set articles. time_sid art = status_id)"

definition mentioned_on_page :: "article list \<Rightarrow> ustr \<Rightarrow> bool" where
  "mentioned_on_page articles status_id =
     (\<exists>art\<in>set articles. status_id \<in> fst ` set (status_links art))"

text \<open>A page that never shows an article.\<close>

definition empty_page :: page where
  "empty_page = \<lparr>view = (\<lambda>k. []), position = 0, wheel_count = 0\<rparr>"

text \<open>
  Sample feeds for status 42. Article 7 has nothing to do with it, article 9 quotes
  it, and the target is the post itself. One feed mounts the target, after a quoting
  article, at the third wheel step; one never shows anything of status 42; one shows
  the quoting article from the start and the target from the third step; one shows
  only the quoting article, from the second step.
\<close>

definition other_article :: article where
  "other_article = \<lparr>time_sid = u ''7'', status_links = []\<rparr>"

definition quoting_article :: article where
  "quoting_article = \<lparr>time_sid = u ''9'', status_links = [(u ''42'', u ''/a/status/42'')]\<rparr>"

definition target_article :: article where
  "target_article = \<lparr>time_sid = u ''42'', status_links = [(u ''42'', u ''/a/status/42'')]\<rparr>"

definition late_page :: page where
  "late_page = \<lparr>view = (\<lambda>k. if k < 3 then [other_article]
                            else [other_article, quoting_article, target_article]),
     position = 5, wheel_count = 2\<rparr>"

definition never_page :: page where
  "never_page = \<lparr>view = (\<lambda>k. [other_article]), position = 0, wheel_count = 0\<rparr>"

definition quoted_page :: page where
  "quoted_page = \<lparr>view = (\<lambda>k. if k < 3 then [quoting_article]
                              else [quoting_article, target_article]),
     position = 0, wheel_count = 0\<rparr>"

definition mention_page :: page where
  "mention_page = \<lparr>view = (\<lambda>k. if k < 2 then [other_article]
                               else [other_article, quoting_article]),
     position = 0, wheel_count = 0\<rparr>"

section \<open>Status ids in links\<close>

text \<open>
  \<open>re.search(r"/status/(\d+)", url)\<close>, group 1 or \<open>""\<close>: the digits after the leftmost
  \<open>/status/\<close> that is followed by a digit. \<open>\d\<close> matches the characters of category Nd,
  those to which the digit valuation gives a value.
\<close>

fun extract_status_id :: "digit_val \<Rightarrow> ustr \<Rightarrow> ustr" where
  "extract_status_id dv [] = []"
| "extract_status_id dv (c # cs) =
     (if startswith (c # cs) (u ''/status/'')
         \<and> takeWhile (\<lambda>x. dv x \<noteq> None) (drop 8 (c # cs)) \<noteq> []
      then takeWhile (\<lambda>x. dv x \<noteq> None) (drop 8 (c # cs))
      else extract_status_id dv cs)"

text \<open>\<open>str(n)\<close> for an integer, and \<open>"\n".join(out.splitlines()[-n:])\<close>.\<close>

definition py_str_int :: "int \<Rightarrow> ustr" where
  "py_str_int n = (if n < 0 then 45 # dec (nat (- n)) else dec (nat n))"

definition last_lines :: "nat \<Rightarrow> ustr \<Rightarrow> ustr" where
  "last_lines n out = join [10] (drop (length (splitlines out) - n) (splitlines out))"

section \<open>Capture with fallback (run_x_capture_analyze.py)\<close>

text \<open>
  \<open>subprocess.run\<close> either returns the completed process, with its return code and
  output, or raises: \<open>OSError\<close> when the command cannot be started,
  \<open>UnicodeDecodeError\<close> when its output is not text. What a command does is the
  environment's part: \<open>exec\<close> gives the outcome of a command from the commands run
  before it, so that the same command may fail once and succeed later. The log of
  commands handed to \<open>subprocess.run\<close> is the state that \<open>_run\<close> changes.

  Three kinds of exception leave \<open>_capture_single\<close>, each with its message:
  \<open>ValueError\<close> for a link without a status id, the \<open>RuntimeError\<close> that \<open>_run\<close>
  raises on a non-zero return code, and whatever \<open>subprocess.run\<close> raised, which is not
  a \<open>RuntimeError\<close>.
\<close>

record completed =
  returncode :: int
  stdout :: ustr

datatype proc_outcome = Completed completed | Raised ustr

datatype run_error = ValueErr ustr | RuntimeErr ustr | OtherErr ustr

record cap_env =
  executable :: ustr
  path_exists :: "ustr \<Rightarrow> bool"
  path_str :: "ustr \<Rightarrow> ustr"
  exec :: "ustr list list \<Rightarrow> ustr list \<Rightarrow> proc_outcome"



definition run :: "cap_env \<Rightarrow> ustr list list \<Rightarrow> ustr list \<Rightarrow> (run_error + ustr) \<times> ustr list list" where
  "run env log cmd =
     (case exec env log cmd of
        Raised exc \<Rightarrow> (Inl (OtherErr exc), log @ [cmd])
      | Completed proc \<Rightarrow>
          (if returncode proc \<noteq> 0
           then Inl (RuntimeErr (u ''command failed rc='' @ py_str_int (returncode proc) @ u '': ''
                    @ join (u '' '') cmd @ [10] @ last_lines 30 (stdout proc)))
           else Inr (stdout proc),
           log @ [cmd]))"






definition sample_link :: ustr where
  "sample_link = u ''https://x.com/a/status/42''"

section \<open>The batch run (batch_x_learning.py, main)\<close>

text \<open>
  \<open>load_links\<close>: the stripped lines of the links file that are neither empty nor
  comments.
\<close>

definition load_links :: "ustr \<Rightarrow> ustr list" where
  "load_links file_text =
     filter (\<lambda>line. line \<noteq> [] \<and> \<not> startswith line (u ''#'')) (map strip (splitlines file_text))"

text \<open>
  The world of the batch run is the capture directory, looked up by status id: no
  file, a file from which the loop body cannot build an item (reading it, parsing the
  JSON or reading its fields raises an exception with the given message), or a capture
  with the three fields the loop reads, \<open>target_status_id\<close> (empty when missing or
  falsy), \<open>main.text\<close> and \<open>main.author\<close>. The fetch script is the environment's part:
  it may raise (\<open>check=True\<close>), the message being that of the exception, and it may
  change the capture directory.
\<close>

record batch_capture =
  cap_target_status_id :: ustr
  cap_text :: ustr
  cap_author :: ustr

record batch_world =
  capture_files :: "ustr \<Rightarrow> (ustr + batch_capture) option"

record batch_env =
  fetch_run :: "batch_world \<Rightarrow> ustr list \<Rightarrow> ustr option \<times> batch_world"
  notion_token :: ustr
  notion_database_id :: ustr
  notion_create_page :: "ustr + ustr"

record batch_args =
  arg_fetch :: bool
  arg_browser :: ustr
  arg_proxy :: ustr
  arg_notion :: bool

definition FETCH_SCRIPT :: ustr where
  "FETCH_SCRIPT = u ''/home/sikai/ai-workspace/x-ops/scripts/fetch_and_learn.sh''"

text \<open>
  \<open>capture_if_needed\<close> returns the capture path, which the status id determines, or
  raises; the result is the message of the exception or the status id.
\<close>

definition capture_if_needed :: "batch_env \<Rightarrow> digit_val \<Rightarrow> batch_world \<Rightarrow> ustr \<Rightarrow> ustr \<Rightarrow> ustr
    \<Rightarrow> bool \<Rightarrow> (ustr + ustr) \<times> batch_world" where
  "capture_if_needed env dv w link browser proxy fetch =
     (let sid = extract_status_id dv link
      in if sid = [] then (Inl (u ''Invalid X link: '' @ link), w)
         else if capture_files w sid \<noteq> None \<or> \<not> fetch then (Inr sid, w)
         else
           (case fetch_run env w ([FETCH_SCRIPT, link, browser]
                                   @ (if proxy \<noteq> [] then [proxy] else [])) of
              (Some exc, w') \<Rightarrow> (Inl exc, w')
            | (None, w') \<Rightarrow> (Inr sid, w')))"

text \<open>
  The dictionary appended to \<open>items\<close> (\<open>its\<close> in the loop below), and what one turn of
  the loop adds.
\<close>

record note_item =
  note_status_id :: ustr
  note_url :: ustr
  note_author :: ustr
  note_summary :: ustr
  note_category :: ustr

definition item_of :: "digit_val \<Rightarrow> ustr \<Rightarrow> batch_capture \<Rightarrow> note_item" where
  "item_of dv link data =
     \<lparr>note_status_id = (if cap_target_status_id data \<noteq> [] then cap_target_status_id data
                         else extract_status_id dv link),
      note_url = link, note_author = cap_author data,
      note_summary = summarize (cap_text data) 120,
      note_category = categorize (cap_text data)\<rparr>"

datatype link_outcome = Processed note_item | Failed ustr

definition process_link :: "batch_env \<Rightarrow> digit_val \<Rightarrow> batch_args \<Rightarrow> batch_world \<Rightarrow> ustr
    \<Rightarrow> link_outcome \<times> batch_world" where
  "process_link env dv args w link =
     (case capture_if_needed env dv w link (arg_browser args) (arg_proxy args) (arg_fetch args) of
        (Inl exc, w') \<Rightarrow> (Failed (link @ u '': '' @ exc), w')
      | (Inr sid, w') \<Rightarrow>
          (case capture_files w' sid of
             None \<Rightarrow> (Failed (u ''missing capture: '' @ link), w')
           | Some (Inl exc) \<Rightarrow> (Failed (link @ u '': '' @ exc), w')
           | Some (Inr data) \<Rightarrow>
               (Processed (item_of dv link data), w')))"

fun batch_loop :: "batch_env \<Rightarrow> digit_val \<Rightarrow> batch_args \<Rightarrow> batch_world \<Rightarrow> note_item list
    \<Rightarrow> ustr list \<Rightarrow> ustr list \<Rightarrow> note_item list \<times> ustr list \<times> batch_world" where
  "batch_loop env dv args w its errors [] = (its, errors, w)"
| "batch_loop env dv args w its errors (link # rest) =
     (case process_link env dv args w link of
        (Processed item, w') \<Rightarrow> batch_loop env dv args w' (its @ [item]) errors rest
      | (Failed e, w') \<Rightarrow> batch_loop env dv args w' its (errors @ [e]) rest)"

text \<open>
  The Notion step appends at most one error. The JSON summary is \<open>links\<close>,
  \<open>processed\<close> and \<open>errors\<close>; writing the note file, which the model takes to succeed,
  and the page id do not enter them.
\<close>

definition notion_errors :: "batch_env \<Rightarrow> batch_args \<Rightarrow> ustr list" where
  "notion_errors env args =
     (if arg_notion args then
        (if strip (notion_token env) = [] \<or> strip (notion_database_id env) = []
         then [u ''Notion sync requested but NOTION_TOKEN or NOTION_DATABASE_ID missing'']
         else case notion_create_page env of
                Inl exc \<Rightarrow> [u ''Notion sync failed: '' @ exc]
              | Inr page_id \<Rightarrow> [])
      else [])"

record batch_result =
  result_links :: nat
  result_processed :: nat
  result_errors :: "ustr list"

definition batch_main :: "batch_env \<Rightarrow> digit_val \<Rightarrow> batch_args \<Rightarrow> batch_world \<Rightarrow> ustr
    \<Rightarrow> batch_result" where
  "batch_main env dv args w file_text =
     (let links = load_links file_text
      in case batch_loop env dv args w [] [] links of
           (its, errors, w') \<Rightarrow>
             \<lparr>result_links = length links, result_processed = length its,
              result_errors = errors @ notion_errors env args\<rparr>)"

text \<open>Vocabulary for the batch properties: a link whose capture is there and loadable.\<close>

definition loadable :: "digit_val \<Rightarrow> batch_world \<Rightarrow> ustr \<Rightarrow> bool" where
  "loadable dv w link =
     (extract_status_id dv link \<noteq> [] \<and>
      (\<exists>data. capture_files w (extract_status_id dv link) = Some (Inr data)))"

text \<open>
  One turn of the loop seen from outside: the capture directory before and after the
  turn, and the entry that the turn adds to the errors list, or \<open>None\<close> when it adds
  an item. This is vocabulary for the proofs about the loop.
\<close>

definition link_step :: "batch_env \<Rightarrow> digit_val \<Rightarrow> batch_args \<Rightarrow> ustr \<Rightarrow> batch_world \<Rightarrow> batch_world
    \<Rightarrow> ustr option \<Rightarrow> bool" where
  "link_step env dv args link before after entry =
     (if extract_status_id dv link = []
      then after = before \<and> entry = Some (link @ u '': Invalid X link: '' @ link)
      else if capture_files before (extract_status_id dv link) = None \<and> arg_fetch args
      then (case fetch_run env before ([FETCH_SCRIPT, link, arg_browser args]
                    @ (if arg_proxy args \<noteq> [] then [arg_proxy args] else [])) of
              (Some exc, w') \<Rightarrow> after = w' \<and> entry = Some (link @ u '': '' @ exc)
            | (None, w') \<Rightarrow> after = w' \<and> entry =
                (case capture_files w' (extract_status_id dv link) of
                   None \<Rightarrow> Some (u ''missing capture: '' @ link)
                 | Some (Inl exc) \<Rightarrow> Some (link @ u '': '' @ exc)
                 | Some (Inr data) \<Rightarrow> None))
      else after = before \<and> entry =
             (case capture_files before (extract_status_id dv link) of
                None \<Rightarrow> Some (u ''missing capture: '' @ link)
              | Some (Inl exc) \<Rightarrow> Some (link @ u '': '' @ exc)
              | Some (Inr data) \<Rightarrow> None))"

definition entry_of :: "link_outcome \<Rightarrow> ustr option" where
  "entry_of out = (case out of Processed item \<Rightarrow> None | Failed e \<Rightarrow> Some e)"

text \<open>
  Sample data: an empty capture directory, one that holds the capture of status 42,
  one in which the file of status 42 is not JSON, an environment whose fetch script
  always fails, a run without fetch and Notion, and a run with fetch.
\<close>

definition no_captures :: batch_world where
  "no_captures = \<lparr>capture_files = (\<lambda>sid. None)\<rparr>"

definition one_capture :: batch_world where
  "one_capture = \<lparr>capture_files = (\<lambda>sid. if sid = u ''42''
       then Some (Inr \<lparr>cap_target_status_id = u ''42'', cap_text = u ''new model'',
                        cap_author = u ''a''\<rparr>)
       else None)\<rparr>"

definition broken_capture :: batch_world where
  "broken_capture = \<lparr>capture_files = (\<lambda>sid. if sid = u ''42''
       then Some (Inl (u ''Expecting value: line 1 column 1 (char 0)'')) else None)\<rparr>"

definition fetch_args :: batch_args where
  "fetch_args = \<lparr>arg_fetch = True, arg_browser = u ''chromium'', arg_proxy = [],
     arg_notion = False\<rparr>"

definition offline_env :: batch_env where
  "offline_env = \<lparr>fetch_run = (\<lambda>w cmd. (Some (u ''fetch failed''), w)), notion_token = [],
     notion_database_id = [], notion_create_page = Inr []\<rparr>"

definition plain_args :: batch_args where
  "plain_args = \<lparr>arg_fetch = False, arg_browser = u ''chromium'', arg_proxy = [],
     arg_notion = False\<rparr>"

definition links_file :: ustr where
  "links_file = u ''not a link'' @ [10] @ u ''https://x.com/a/status/42'' @ [10]"

section \<open>Vocabulary for the queue round trip\<close>











section \<open>Properties of the queue parser\<close>

lemma items_flush: "items (flush_current st) = all_items st"
  by (simp add: flush_current_def all_items_def split: option.splits)

lemma all_items_flush: "all_items ((flush_current st)\<lparr>in_text := b\<rparr>) = all_items st"
  by (simp add: flush_current_def all_items_def split: option.splits)

lemma id_status_set_field: "id_status (set_field c k v) = id_status c"
  by (simp add: set_field_def id_status_def)

lemma parse_line_marker:
  assumes "marker_line l"
  shows "parse_line dv st l =
     (case marker_id dv l of
        None \<Rightarrow> (if length (split_ws l) \<le> 2 then Inl IndexError else Inl (ValueError (split_ws l ! 2)))
      | Some n \<Rightarrow> Inr ((flush_current st)\<lparr>in_text := False,
            current := Some \<lparr>item_id = n, status = marker_status l,
                            type = [], lang = [], source = [], item_note = [],
                            item_text = []\<rparr>\<rparr>))"
  using assms
  by (simp add: parse_line_def marker_line_def marker_id_def Let_def split: option.splits)

lemma parse_line_keys:
  assumes "parse_line dv st l = Inr st'"
  shows "map id_status (all_items st') =
           map id_status (all_items st) @
           (if marker_line l then [(the (marker_id dv l), marker_status l)] else [])"
    and "marker_line l \<Longrightarrow> marker_id dv l \<noteq> None"
proof -
  show "marker_line l \<Longrightarrow> marker_id dv l \<noteq> None"
    using assms by (auto simp: parse_line_marker split: if_splits option.splits)
  show "map id_status (all_items st') =
           map id_status (all_items st) @
           (if marker_line l then [(the (marker_id dv l), marker_status l)] else [])"
  proof (cases "marker_line l")
    case True
    with assms obtain n where n: "marker_id dv l = Some n"
      by (auto simp: parse_line_marker split: option.splits if_splits)
    with True assms have "st' = (flush_current st)\<lparr>in_text := False,
            current := Some \<lparr>item_id = n, status = marker_status l,
                            type = [], lang = [], source = [], item_note = [],
                            item_text = []\<rparr>\<rparr>"
      by (simp add: parse_line_marker)
    then show ?thesis using True n
      by (simp add: all_items_def items_flush id_status_def flush_current_def split: option.splits)
  next
    case False
    with assms show ?thesis
      by (auto simp: parse_line_def marker_line_def all_items_def id_status_def set_field_def
               split: option.splits if_splits)
  qed
qed

lemma parse_lines_keys:
  "parse_lines dv st ls = Inr st' \<Longrightarrow>
     map id_status (all_items st') =
       map id_status (all_items st) @
       map (\<lambda>l. (the (marker_id dv l), marker_status l)) (filter marker_line ls)"
proof (induction ls arbitrary: st)
  case Nil
  then show ?case by simp
next
  case (Cons l ls)
  then obtain st1 where s1: "parse_line dv st l = Inr st1" and s2: "parse_lines dv st1 ls = Inr st'"
    by (auto split: sum.splits)
  show ?case
    using Cons.IH [OF s2] parse_line_keys(1) [OF s1] by simp
qed

lemma parse_lines_bad_marker:
  "l \<in> set ls \<Longrightarrow> marker_line l \<Longrightarrow> marker_id dv l = None \<Longrightarrow> \<exists>e. parse_lines dv st ls = Inl e"
proof (induction ls arbitrary: st)
  case Nil
  then show ?case by simp
next
  case (Cons a ls)
  show ?case
  proof (cases "parse_line dv st a")
    case (Inl e)
    then show ?thesis by simp
  next
    case (Inr st1)
    with Cons.prems parse_line_keys(2) [OF Inr] have "l \<in> set ls" by auto
    from Cons.IH [OF this Cons.prems(2,3)] Inr show ?thesis by simp
  qed
qed

lemma parse_lines_good:
  "\<forall>l\<in>set ls. marker_line l \<longrightarrow> marker_id dv l \<noteq> None \<Longrightarrow> \<exists>st'. parse_lines dv st ls = Inr st'"
proof (induction ls arbitrary: st)
  case Nil
  then show ?case by simp
next
  case (Cons a ls)
  have "\<exists>st1. parse_line dv st a = Inr st1"
  proof (cases "marker_line a")
    case True
    with Cons.prems show ?thesis by (auto simp: parse_line_marker)
  next
    case False
    then show ?thesis
      by (auto simp: parse_line_def marker_line_def split: option.splits)
  qed
  then obtain st1 where "parse_line dv st a = Inr st1" ..
  moreover have "\<exists>st'. parse_lines dv st1 ls = Inr st'"
    using Cons.prems by (intro Cons.IH) simp
  ultimately show ?case by simp
qed

lemma takeWhile_until:
  "c \<notin> set pre \<Longrightarrow> takeWhile (\<lambda>x. x \<noteq> c) (pre @ c # rest) = pre"
  by (induction pre) auto

lemma marker_status_between:
  assumes "l = pre @ [91] @ mid @ [93] @ post" "91 \<notin> set pre" "93 \<notin> set pre" "93 \<notin> set mid"
  shows "marker_status l = strip mid"
proof -
  have i1: "index l 91 = length pre"
    using assms by (simp add: index_def takeWhile_until)
  have "takeWhile (\<lambda>x. x \<noteq> 93) ((pre @ 91 # mid) @ 93 # post) = pre @ 91 # mid"
    using assms(3,4) by (intro takeWhile_until) simp
  then have i2: "index l 93 = length pre + 1 + length mid"
    using assms by (simp add: index_def)
  show ?thesis
    using i1 i2 unfolding assms(1) by (simp add: marker_status_def slice_def)
qed

lemma splitlines_no_break:
  "\<forall>c\<in>set l. \<not> is_linebreak c \<Longrightarrow> l \<noteq> [] \<Longrightarrow> splitlines l = [l]"
proof (induction l)
  case Nil
  then show ?case by simp
next
  case (Cons c l)
  then have c: "\<not> is_linebreak c" "c \<noteq> 13" by (auto simp: is_linebreak_def)
  show ?case
  proof (cases "l = []")
    case True
    with c show ?thesis by simp
  next
    case False
    with Cons have "splitlines l = [l]" by simp
    with c show ?thesis by simp
  qed
qed

lemma dv_ok_digits:
  assumes "dv_ok dv"
  shows "dv 48 = Some 0" "dv 55 = Some 7"
  using assms [unfolded dv_ok_def, rule_format, of 0] assms [unfolded dv_ok_def, rule_format, of 7]
  by simp_all


lemma parse_queue_md_items:
  assumes "parse_queue_md dv content = Inr (hdr, its)"
  shows "map id_status its =
           map (\<lambda>l. (the (marker_id dv l), marker_status l))
             (filter marker_line (splitlines content))"
proof -
  from assms obtain st where st: "parse_lines dv init_pstate (splitlines content) = Inr st"
    and its: "its = items (flush_current st)"
    by (auto simp: parse_queue_md_def split: sum.splits)
  have "all_items init_pstate = []"
    by (simp add: all_items_def init_pstate_def)
  with parse_lines_keys [OF st] its show ?thesis
    by (simp add: items_flush)
qed

lemma marker_status_reversed:
  assumes "l = pre @ [93] @ mid @ [91] @ post" "91 \<notin> set pre" "93 \<notin> set pre" "91 \<notin> set mid"
  shows "marker_status l = []"
proof -
  have i1: "index (pre @ [93] @ mid @ [91] @ post) 93 = length pre"
    using assms by (simp add: index_def takeWhile_until)
  have "takeWhile (\<lambda>x. x \<noteq> 91) ((pre @ 93 # mid) @ 91 # post) = pre @ 93 # mid"
    using assms(2,4) by (intro takeWhile_until) simp
  then have i2: "index (pre @ [93] @ mid @ [91] @ post) 91 = length pre + 1 + length mid"
    by (simp add: index_def)
  show ?thesis
    using i1 i2 unfolding assms(1) by (simp add: marker_status_def slice_def strip_def)
qed

lemma marker_status_no_brackets:
  "91 \<notin> set l \<or> 93 \<notin> set l \<Longrightarrow> marker_status l = u ''pending''"
  by (auto simp: marker_status_def)

lemmas parse_eval =
  parse_queue_md_def u_def is_linebreak_def parse_line_def startswith_def
  split_ws_def py_isspace_def py_int_def strip_def int_unsigned_def marker_status_def
  index_def slice_def init_pstate_def flush_current_def set_field_def

text \<open>
  Claim C7, as the code has it. For every digit valuation that reads the ASCII digits:
  the one-line file \<open>## Item 007 [drafted]\<close> parses to one item with id 7 and status
  \<open>drafted\<close>; the one-line file \<open>## Item 007\<close> parses to one item with id 7 and status
  \<open>pending\<close>; and in every file that parses, each marker line yields an item whose id
  is the integer of its third token and whose status is the text between the first
  \<open>[\<close> and the first \<open>]\<close> of the line with surrounding whitespace stripped, the
  empty string when the first \<open>]\<close> comes before the first \<open>[\<close>, and \<open>pending\<close> when
  either bracket is missing.
\<close>

theorem marker_parsing:
  assumes "dv_ok dv"
  shows "parse_queue_md dv (u ''## Item 007 [drafted]'') =
           Inr ([], [\<lparr>item_id = 7, status = u ''drafted'', type = [], lang = [], source = [],
                      item_note = [], item_text = []\<rparr>])
       \<and> parse_queue_md dv (u ''## Item 007'') =
           Inr ([], [\<lparr>item_id = 7, status = u ''pending'', type = [], lang = [], source = [],
                      item_note = [], item_text = []\<rparr>])
       \<and> (\<forall>content hdr its l.
             parse_queue_md dv content = Inr (hdr, its) \<and> l \<in> set (splitlines content)
               \<and> marker_line l \<longrightarrow>
             (\<exists>it\<in>set its. marker_id dv l = Some (item_id it)
                \<and> (\<forall>pre mid post. l = pre @ [91] @ mid @ [93] @ post \<and> 91 \<notin> set pre
                       \<and> 93 \<notin> set pre \<and> 93 \<notin> set mid \<longrightarrow> status it = strip mid)
                \<and> (\<forall>pre mid post. l = pre @ [93] @ mid @ [91] @ post \<and> 91 \<notin> set pre
                       \<and> 93 \<notin> set pre \<and> 91 \<notin> set mid \<longrightarrow> status it = [])
                \<and> (91 \<notin> set l \<or> 93 \<notin> set l \<longrightarrow> status it = u ''pending'')))"
proof (intro conjI allI impI)
  show "parse_queue_md dv (u ''## Item 007 [drafted]'') =
           Inr ([], [\<lparr>item_id = 7, status = u ''drafted'', type = [], lang = [], source = [],
                      item_note = [], item_text = []\<rparr>])"
    using dv_ok_digits [OF assms] by (simp add: parse_eval)
  show "parse_queue_md dv (u ''## Item 007'') =
           Inr ([], [\<lparr>item_id = 7, status = u ''pending'', type = [], lang = [], source = [],
                      item_note = [], item_text = []\<rparr>])"
    using dv_ok_digits [OF assms] by (simp add: parse_eval)
next
  fix content hdr its l
  assume a: "parse_queue_md dv content = Inr (hdr, its) \<and> l \<in> set (splitlines content)
               \<and> marker_line l"
  then have ok: "parse_queue_md dv content = Inr (hdr, its)"
    and l: "l \<in> set (filter marker_line (splitlines content))" by simp_all
  from ok obtain st where st: "parse_lines dv init_pstate (splitlines content) = Inr st"
    by (auto simp: parse_queue_md_def split: sum.splits)
  have "marker_id dv l \<noteq> None"
  proof
    assume "marker_id dv l = None"
    with a parse_lines_bad_marker [of l "splitlines content" dv init_pstate] st
    show False by auto
  qed
  then obtain n where n: "marker_id dv l = Some n" by auto
  from l have "(the (marker_id dv l), marker_status l) \<in> set (map id_status its)"
    unfolding parse_queue_md_items [OF ok] by simp
  then obtain it where it: "it \<in> set its" "id_status it = (n, marker_status l)"
    using n by auto
  show "\<exists>it\<in>set its. marker_id dv l = Some (item_id it)
                \<and> (\<forall>pre mid post. l = pre @ [91] @ mid @ [93] @ post \<and> 91 \<notin> set pre
                       \<and> 93 \<notin> set pre \<and> 93 \<notin> set mid \<longrightarrow> status it = strip mid)
                \<and> (\<forall>pre mid post. l = pre @ [93] @ mid @ [91] @ post \<and> 91 \<notin> set pre
                       \<and> 93 \<notin> set pre \<and> 91 \<notin> set mid \<longrightarrow> status it = [])
                \<and> (91 \<notin> set l \<or> 93 \<notin> set l \<longrightarrow> status it = u ''pending'')"
  proof (intro bexI [of _ it] conjI allI impI)
    show "it \<in> set its" by (rule it(1))
    show "marker_id dv l = Some (item_id it)"
      using it(2) n by (simp add: id_status_def)
    have s: "status it = marker_status l"
      using it(2) by (simp add: id_status_def)
    show "status it = strip mid"
      if "l = pre @ [91] @ mid @ [93] @ post \<and> 91 \<notin> set pre \<and> 93 \<notin> set pre \<and> 93 \<notin> set mid"
      for pre mid post
      using that s marker_status_between [of l pre mid post] by simp
    show "status it = []"
      if "l = pre @ [93] @ mid @ [91] @ post \<and> 91 \<notin> set pre \<and> 93 \<notin> set pre \<and> 91 \<notin> set mid"
      for pre mid post
      using that s marker_status_reversed [of l pre mid post] by simp
    show "status it = u ''pending''" if "91 \<notin> set l \<or> 93 \<notin> set l"
      using that s marker_status_no_brackets [of l] by simp
  qed
qed

lemma dv_ok_ascii: "dv_ok ascii_dv"
  by (simp add: dv_ok_def ascii_dv_def)

theorem marker_parsing_witness:
  "dv_ok ascii_dv
   \<and> parse_queue_md ascii_dv (u ''## Item 007 [drafted]'') =
           Inr ([], [\<lparr>item_id = 7, status = u ''drafted'', type = [], lang = [], source = [],
                      item_note = [], item_text = []\<rparr>])
   \<and> parse_queue_md ascii_dv (u ''## Item 007'') =
           Inr ([], [\<lparr>item_id = 7, status = u ''pending'', type = [], lang = [], source = [],
                      item_note = [], item_text = []\<rparr>])"
  using marker_parsing [OF dv_ok_ascii] dv_ok_ascii by simp

text \<open>
  The claim as written takes the status to be the text between the brackets itself.
  The code strips it: between the brackets of \<open>## Item 007 [ drafted ]\<close> stands
  \<open>drafted\<close> with a space on either side, and the parsed status is \<open>drafted\<close>.
\<close>

theorem marker_status_counterexample:
  "parse_queue_md ascii_dv (u ''## Item 007 [ drafted ]'') =
       Inr ([], [\<lparr>item_id = 7, status = u ''drafted'', type = [], lang = [], source = [],
                  item_note = [], item_text = []\<rparr>])
   \<and> slice (u ''## Item 007 [ drafted ]'') (index (u ''## Item 007 [ drafted ]'') 91 + 1)
        (index (u ''## Item 007 [ drafted ]'') 93) = u '' drafted ''
   \<and> u ''drafted'' \<noteq> u '' drafted ''"
  by (simp add: parse_eval ascii_dv_def)

text \<open>
  Claim C8. If some line of the file starts with \<open>## Item\<close> followed by a space and its
  third whitespace-separated token is missing or is not an integer for \<open>int\<close>, the
  parse ends in an error: no header and no items are returned.
\<close>

theorem malformed_marker_aborts:
  assumes "l \<in> set (splitlines content)"
    and "startswith l (u ''## Item '')"
    and "marker_id dv l = None"
  shows "\<exists>e. parse_queue_md dv content = Inl e"
proof -
  from assms obtain e where "parse_lines dv init_pstate (splitlines content) = Inl e"
    using parse_lines_bad_marker [of l "splitlines content" dv init_pstate]
    by (auto simp: marker_line_def)
  then show ?thesis by (simp add: parse_queue_md_def)
qed

theorem malformed_marker_aborts_witness:
  "u ''## Item x7 [pending]'' \<in> set (splitlines (u ''# X Queue'' @ [10] @ u ''## Item 001 [pending]'' @ [10] @ u ''## Item x7 [pending]'' @ [10]))
   \<and> startswith (u ''## Item x7 [pending]'') (u ''## Item '')
   \<and> marker_id ascii_dv (u ''## Item x7 [pending]'') = None
   \<and> (\<exists>e. parse_queue_md ascii_dv (u ''# X Queue'' @ [10] @ u ''## Item 001 [pending]'' @ [10] @ u ''## Item x7 [pending]'' @ [10]) = Inl e)"
proof -
  have h1: "u ''## Item x7 [pending]'' \<in> set (splitlines (u ''# X Queue'' @ [10] @ u ''## Item 001 [pending]'' @ [10] @ u ''## Item x7 [pending]'' @ [10]))"
    by (simp add: u_def is_linebreak_def)
  have h2: "startswith (u ''## Item x7 [pending]'') (u ''## Item '')"
    by (simp add: u_def startswith_def)
  have h3: "marker_id ascii_dv (u ''## Item x7 [pending]'') = None"
    by (simp add: marker_id_def parse_eval ascii_dv_def)
  from malformed_marker_aborts [OF h1 h2 h3] h1 h2 h3 show ?thesis by blast
qed

section \<open>Properties of the categorizer and the summarizer\<close>

lemma categorize_scenario: "categorize scenario_text = u ''install-debug''"
  by (simp add: categorize_def scenario_text_def CATEGORY_RULES_def lower_def u_def startswith_def)

lemma summarize_scenario:
  "summarize scenario_text 120 =
     u ''step 1: '' @ [23433, 35013] @ u '' step 2: '' @ [37197, 32622]"
  by (simp add: summarize_def scenario_text_def u_def py_isspace_def strip_def)

text \<open>
  Claim C9, as the code has it. For the capture text \<open>step 1: \<close>U+5B89 U+88C5, newline,
  \<open>step 2: \<close>U+914D U+7F6E, newline: \<open>categorize\<close> returns \<open>install-debug\<close>, and
  \<open>summarize\<close> returns the text with each run of whitespace replaced by one space and
  the ends stripped, which is \<open>step 1: \<close>U+5B89 U+88C5\<open> step 2: \<close>U+914D U+7F6E, 21
  characters, with no truncation and no ellipsis.
\<close>

theorem scenario_categorize_summarize:
  "categorize scenario_text = u ''install-debug''
   \<and> summarize scenario_text 120 =
       u ''step 1: '' @ [23433, 35013] @ u '' step 2: '' @ [37197, 32622]
   \<and> summarize scenario_text 120 = strip (collapse_ws False scenario_text)
   \<and> length (summarize scenario_text 120) = 21"
  using categorize_scenario summarize_scenario
  by (simp add: summarize_def scenario_text_def u_def py_isspace_def strip_def)

text \<open>
  The summary is not the text unchanged: both newlines of the text are gone from it,
  although the text has only 22 characters.
\<close>

theorem summarize_unchanged_counterexample:
  "summarize scenario_text 120 \<noteq> scenario_text \<and> length scenario_text \<le> 120"
  by (simp add: summarize_scenario) (simp add: scenario_text_def u_def)

section \<open>Properties of the knowledge-base append\<close>

lemma startswith_iff: "startswith s p \<longleftrightarrow> (\<exists>r. s = p @ r)"
proof
  assume "startswith s p"
  then have "s = p @ drop (length p) s"
    by (metis append_take_drop_id startswith_def)
  then show "\<exists>r. s = p @ r" ..
next
  assume "\<exists>r. s = p @ r"
  then show "startswith s p" by (auto simp: startswith_def)
qed

lemma contains_self_prefix: "contains (p @ b) p"
proof -
  have "startswith (p @ b) p" by (simp add: startswith_def)
  then show ?thesis by (cases "p @ b") auto
qed

lemma contains_append: "contains (a @ p @ b) p"
  by (induction a) (auto simp: contains_self_prefix)

lemma startswith_head: "startswith (c # cs) (d # p) \<Longrightarrow> c = d"
  by (simp add: startswith_def)

lemma not_contains_without_head: "d \<notin> set s \<Longrightarrow> \<not> contains s (d # p)"
  by (induction s) (auto dest: startswith_head)

lemma occurrences_without_head: "d \<notin> set s \<Longrightarrow> occurrences s (d # p) = 0"
  by (induction s) (auto dest: startswith_head)

lemma occurrences_self:
  assumes "d \<notin> set p" "d \<notin> set r"
  shows "occurrences ((d # p) @ r) (d # p) = 1"
  using assms by (simp add: startswith_def occurrences_without_head)

lemma startswith_straddle:
  assumes "startswith (base @ d # t) (d # p)" "d \<notin> set p"
  shows "startswith base (d # p) \<or> base = []"
proof -
  from assms(1) obtain r where "base @ (d # t) = (d # p) @ r"
    unfolding startswith_iff ..
  then have "\<exists>us. (base = (d # p) @ us \<and> us @ (d # t) = r) \<or> (base @ us = d # p \<and> d # t = us @ r)"
    by (simp only: append_eq_append_conv2)
  then consider us where "base = (d # p) @ us"
    | us where "base @ us = d # p" "d # t = us @ r"
    by blast
  then show ?thesis
  proof cases
    case 1
    then show ?thesis by (auto simp: startswith_iff)
  next
    case 2
    show ?thesis
    proof (cases us)
      case Nil
      with 2 show ?thesis by (auto simp: startswith_iff)
    next
      case (Cons x us')
      with 2 have b: "base @ d # us' = d # p" by simp
      show ?thesis
      proof (cases base)
        case Nil
        then show ?thesis by simp
      next
        case (Cons y bs)
        with b have "p = bs @ d # us'" by simp
        then have "d \<in> set p" by simp
        with assms(2) show ?thesis by simp
      qed
    qed
  qed
qed

lemma occurrences_base:
  assumes "d \<notin> set p" "\<not> contains base (d # p)"
  shows "occurrences (base @ d # t) (d # p) = occurrences (d # t) (d # p)"
  using assms(2)
proof (induction base)
  case Nil
  then show ?case by simp
next
  case (Cons b bs)
  then have nb: "\<not> startswith (b # bs) (d # p)" and nc: "\<not> contains bs (d # p)" by auto
  have "\<not> startswith ((b # bs) @ d # t) (d # p)"
    using startswith_straddle [of "b # bs" d t p] assms(1) nb by auto
  with Cons.IH [OF nc] show ?case by simp
qed

lemma set_join: "set (join sep xs) \<subseteq> set sep \<union> (\<Union>x\<in>set xs. set x)"
  by (induction sep xs rule: join.induct) auto

lemma kb_marker_head:
  "kb_marker sid = 60 # (u ''!-- status_id:'' @ sid @ u '' -->'')"
  by (simp add: kb_marker_def u_def)

lemma kb_marker_tail_free:
  "60 \<notin> set sid \<Longrightarrow> 60 \<notin> set (u ''!-- status_id:'' @ sid @ u '' -->'')"
  by (simp add: u_def)

lemma kb_entry_shape:
  "join [10] (kb_entry_lines data points lp) =
     kb_marker (target_status_id data) @ [10] @
       join [10] (tl (kb_entry_lines data points lp))"
  by (simp add: kb_entry_lines_def)

lemma kb_entry_rest_free:
  assumes "60 \<notin> set (target_status_id data)" "60 \<notin> set (data_url data)"
    "60 \<notin> set (data_author data)" "60 \<notin> set lp" "\<forall>p\<in>set (take 5 points). 60 \<notin> set p"
  shows "60 \<notin> set ([10] @ join [10] (tl (kb_entry_lines data points lp)) @ [10])"
proof -
  have "\<forall>x\<in>set (tl (kb_entry_lines data points lp)). 60 \<notin> set x"
    using assms by (auto simp: kb_entry_lines_def u_def)
  with set_join [of "[10]" "tl (kb_entry_lines data points lp)"] show ?thesis by auto
qed

lemma contains_iff: "contains s p \<longleftrightarrow> (\<exists>a b. s = a @ p @ b)"
proof
  show "contains s p \<Longrightarrow> \<exists>a b. s = a @ p @ b"
  proof (induction s)
    case Nil
    then show ?case by simp
  next
    case (Cons c cs)
    show ?case
    proof (cases "startswith (c # cs) p")
      case True
      then obtain r where "c # cs = p @ r" unfolding startswith_iff ..
      then have "c # cs = [] @ p @ r" by simp
      then show ?thesis by blast
    next
      case False
      with Cons obtain a b where "cs = a @ p @ b" by auto
      then have "c # cs = (c # a) @ p @ b" by simp
      then show ?thesis by blast
    qed
  qed
next
  assume "\<exists>a b. s = a @ p @ b"
  then show "contains s p" using contains_append by auto
qed

lemma read_newlines_plain: "13 \<notin> set m \<Longrightarrow> read_newlines (m @ b) = m @ read_newlines b"
  by (induction m) auto

lemma read_newlines_keeps:
  assumes "13 \<notin> set m" "m \<noteq> []" "hd m \<noteq> 10"
  shows "\<exists>a' b'. read_newlines (a @ m @ b) = a' @ m @ b'"
proof (induction a rule: read_newlines.induct)
  case 1
  have "read_newlines ([] @ m @ b) = [] @ m @ read_newlines b"
    using assms(1) by (simp add: read_newlines_plain)
  then show ?case by blast
next
  case (2 c cs)
  show ?case
  proof (cases "c = 13")
    case False
    with "2.IH"(3) obtain a' b' where "read_newlines (cs @ m @ b) = a' @ m @ b'" by blast
    with False have "read_newlines ((c # cs) @ m @ b) = (c # a') @ m @ b'" by simp
    then show ?thesis by blast
  next
    case True
    show ?thesis
    proof (cases cs)
      case Nil
      from assms(2,3) obtain d ds where m: "m = d # ds" "d \<noteq> 10" by (cases m) auto
      with True Nil have "read_newlines ((c # cs) @ m @ b) = 10 # read_newlines (m @ b)"
        by simp
      then have "read_newlines ((c # cs) @ m @ b) = [10] @ m @ read_newlines b"
        using assms(1) by (simp add: read_newlines_plain)
      then show ?thesis by blast
    next
      case (Cons d ds)
      show ?thesis
      proof (cases "d = 10")
        case d: True
        from "2.IH"(1) [OF True Cons d] obtain a' b' where
          "read_newlines (ds @ m @ b) = a' @ m @ b'" by blast
        with True Cons d have "read_newlines ((c # cs) @ m @ b) = (10 # a') @ m @ b'" by simp
        then show ?thesis by blast
      next
        case d: False
        from "2.IH"(2) [OF True Cons d] obtain a' b' where
          "read_newlines (cs @ m @ b) = a' @ m @ b'" by blast
        with True Cons d have "read_newlines ((c # cs) @ m @ b) = (10 # a') @ m @ b'" by simp
        then show ?thesis by blast
      qed
    qed
  qed
qed

lemma contains_read_newlines:
  assumes "13 \<notin> set m" "m \<noteq> []" "hd m \<noteq> 10" "contains s m"
  shows "contains (read_newlines s) m"
proof -
  from assms(4) obtain a b where "s = a @ m @ b" unfolding contains_iff by blast
  with read_newlines_keeps [OF assms(1-3), of a b] show ?thesis
    unfolding contains_iff by auto
qed

lemma kb_marker_no_cr: "13 \<notin> set sid \<Longrightarrow> 13 \<notin> set (kb_marker sid)"
  by (simp add: kb_marker_def u_def)

lemma kb_marker_hd: "kb_marker sid \<noteq> []" "hd (kb_marker sid) \<noteq> 10"
  by (simp_all add: kb_marker_def u_def)

lemma append_kb_first:
  assumes "case kb_content kb of None \<Rightarrow> True
           | Some stored \<Rightarrow> \<not> contains (read_newlines stored) (kb_marker (target_status_id data))"
  shows "append_kb kb data points lp =
       (True, \<lparr>kb_content = Some ((case kb_content kb of None \<Rightarrow> u ''# X Lessons KB'' @ [10, 10]
                                    | Some stored \<Rightarrow> stored)
                  @ kb_marker (target_status_id data) @
                  ([10] @ join [10] (tl (kb_entry_lines data points lp)) @ [10])),
               kb_writes = kb_writes (snd (append_kb kb data points lp))\<rparr>)"
  using assms
  by (cases "kb_content kb")
     (simp_all add: append_kb_def append_text_def write_text_def kb_entry_shape Let_def)

lemma append_kb_later:
  assumes "kb_content kb = Some stored" "contains (read_newlines stored) (kb_marker sid)"
    "\<forall>(data, points, lp)\<in>set calls. target_status_id data = sid"
  shows "append_kb_all kb calls = (replicate (length calls) False, kb)"
  using assms(3)
proof (induction calls)
  case Nil
  then show ?case by simp
next
  case (Cons c calls)
  obtain data points lp where c: "c = (data, points, lp)" by (cases c) auto
  with Cons.prems have "target_status_id data = sid" by simp
  with assms(1,2) have "append_kb kb data points lp = (False, kb)"
    by (simp add: append_kb_def)
  with Cons c show ?case by simp
qed

lemma append_kb_first_content:
  assumes "case kb_content kb of None \<Rightarrow> True
           | Some stored \<Rightarrow> \<not> contains (read_newlines stored) (kb_marker (target_status_id data))"
  shows "kb_content (snd (append_kb kb data points lp)) =
           Some ((case kb_content kb of None \<Rightarrow> u ''# X Lessons KB'' @ [10, 10]
                  | Some stored \<Rightarrow> stored)
                 @ join [10] (kb_entry_lines data points lp) @ [10])"
  using assms
  by (cases "kb_content kb") (simp_all add: append_kb_def append_text_def write_text_def Let_def)

lemmas kb_eval = append_kb_def append_text_def write_text_def kb_entry_lines_def kb_marker_def
  u_def startswith_def Let_def

text \<open>
  Claim C5, as the code has it. Let the knowledge-base file be absent, or be read
  without the marker of a status id that holds no carriage return, and let
  \<open>_append_kb\<close> run any number of times, at least once, for captures with that status
  id. The first call returns \<open>True\<close> and leaves the file as the old text (or the title
  line of a new file) followed by the entry; every later call returns \<open>False\<close> and
  leaves the file as the first call left it. If moreover neither the status id nor
  the url, author, learned-note path and first five points of the first capture
  contain the character \<open><\<close>, the marker occurs in the final file exactly once.
\<close>

theorem append_kb_idempotent:
  assumes fresh: "case kb_content kb of None \<Rightarrow> True
                   | Some stored \<Rightarrow> \<not> contains (read_newlines stored) (kb_marker sid)"
    and same: "\<forall>(data, points, lp)\<in>set ((data0, points0, lp0) # calls). target_status_id data = sid"
    and nocr: "13 \<notin> set sid"
  shows "fst (append_kb_all kb ((data0, points0, lp0) # calls)) = True # replicate (length calls) False
       \<and> snd (append_kb_all kb ((data0, points0, lp0) # calls)) = snd (append_kb kb data0 points0 lp0)
       \<and> kb_content (snd (append_kb kb data0 points0 lp0)) =
           Some ((case kb_content kb of None \<Rightarrow> u ''# X Lessons KB'' @ [10, 10]
                  | Some stored \<Rightarrow> stored)
                 @ join [10] (kb_entry_lines data0 points0 lp0) @ [10])
       \<and> (60 \<notin> set sid \<and> 60 \<notin> set (data_url data0) \<and> 60 \<notin> set (data_author data0)
            \<and> 60 \<notin> set lp0 \<and> (\<forall>p\<in>set (take 5 points0). 60 \<notin> set p) \<longrightarrow>
          (\<exists>txt. kb_content (snd (append_kb_all kb ((data0, points0, lp0) # calls))) = Some txt
              \<and> occurrences txt (kb_marker sid) = 1))"
proof -
  from same have sid: "target_status_id data0 = sid"
    and rest: "\<forall>(data, points, lp)\<in>set calls. target_status_id data = sid" by auto
  define r where "r = [10] @ join [10] (tl (kb_entry_lines data0 points0 lp0)) @ [10]"
  define base where "base = (case kb_content kb of None \<Rightarrow> u ''# X Lessons KB'' @ [10, 10]
                                    | Some stored \<Rightarrow> stored)"
  define kb1 where "kb1 = snd (append_kb kb data0 points0 lp0)"
  have fresh0: "case kb_content kb of None \<Rightarrow> True
           | Some stored \<Rightarrow> \<not> contains (read_newlines stored) (kb_marker (target_status_id data0))"
    using fresh unfolding sid .
  from append_kb_first [OF fresh0, of points0 lp0]
  have kb1: "append_kb kb data0 points0 lp0 = (True, kb1)"
    and c1: "kb_content kb1 = Some (base @ kb_marker sid @ r)"
    unfolding kb1_def base_def r_def sid
    by (metis fst_conv snd_conv prod.collapse, metis snd_conv kb_file.select_convs(1))
  have m: "13 \<notin> set (kb_marker sid)" using nocr by (rule kb_marker_no_cr)
  have "contains (base @ kb_marker sid @ r) (kb_marker sid)" by (rule contains_append)
  then have found: "contains (read_newlines (base @ kb_marker sid @ r)) (kb_marker sid)"
    by (rule contains_read_newlines [OF m kb_marker_hd])
  have later: "append_kb_all kb1 calls = (replicate (length calls) False, kb1)"
    using c1 found rest by (rule append_kb_later)
  have all: "append_kb_all kb ((data0, points0, lp0) # calls) =
      (True # replicate (length calls) False, kb1)"
    using kb1 later by simp
  have content: "kb_content (snd (append_kb kb data0 points0 lp0)) =
           Some ((case kb_content kb of None \<Rightarrow> u ''# X Lessons KB'' @ [10, 10]
                  | Some stored \<Rightarrow> stored)
                 @ join [10] (kb_entry_lines data0 points0 lp0) @ [10])"
    using fresh0 by (rule append_kb_first_content)
  have once: "occurrences (base @ kb_marker sid @ r) (kb_marker sid) = 1"
    if clean: "60 \<notin> set sid \<and> 60 \<notin> set (data_url data0) \<and> 60 \<notin> set (data_author data0)
            \<and> 60 \<notin> set lp0 \<and> (\<forall>p\<in>set (take 5 points0). 60 \<notin> set p)"
  proof -
    have rfree: "60 \<notin> set r"
      unfolding r_def using clean sid by (intro kb_entry_rest_free) simp_all
    have mfree: "60 \<notin> set (u ''!-- status_id:'' @ sid @ u '' -->'')"
      using clean by (intro kb_marker_tail_free) simp
    have nb: "\<not> contains base (kb_marker sid)"
    proof (cases "kb_content kb")
      case None
      then have "base = u ''# X Lessons KB'' @ [10, 10]" by (simp add: base_def)
      then show ?thesis
        unfolding kb_marker_head by (intro not_contains_without_head) (simp add: u_def)
    next
      case (Some stored)
      with fresh have "\<not> contains (read_newlines stored) (kb_marker sid)" by simp
      with contains_read_newlines [OF m kb_marker_hd, of stored]
      have "\<not> contains stored (kb_marker sid)" by blast
      with Some show ?thesis by (simp add: base_def)
    qed
    have "occurrences (base @ kb_marker sid @ r) (kb_marker sid)
        = occurrences (kb_marker sid @ r) (kb_marker sid)"
      using occurrences_base [OF mfree, of base "(u ''!-- status_id:'' @ sid @ u '' -->'') @ r"] nb
      by (simp add: kb_marker_head)
    also have "\<dots> = 1"
      using occurrences_self [OF mfree rfree] by (simp add: kb_marker_head)
    finally show ?thesis .
  qed
  have "snd (append_kb kb data0 points0 lp0) = kb1" by (simp add: kb1_def)
  with all c1 content once show ?thesis by simp
qed

theorem append_kb_idempotent_witness:
  "(case kb_content kb_absent of None \<Rightarrow> True
    | Some stored \<Rightarrow> \<not> contains (read_newlines stored) (kb_marker (u ''1'')))
   \<and> list_all (\<lambda>(data, points, lp). target_status_id data = u ''1'')
        [(capture_one, [u ''p''], u ''n.md''), (capture_one, [], u ''n.md''),
         (capture_marker_author, [], [])]
   \<and> 13 \<notin> set (u ''1'')
   \<and> 60 \<notin> set (u ''1'') \<and> 60 \<notin> set (data_url capture_one)
   \<and> 60 \<notin> set (data_author capture_one) \<and> 60 \<notin> set (u ''n.md'')
   \<and> list_all (\<lambda>p. 60 \<notin> set p) (take 5 [u ''p''])
   \<and> fst (append_kb_all kb_absent [(capture_one, [u ''p''], u ''n.md''),
          (capture_one, [], u ''n.md''), (capture_marker_author, [], [])]) = [True, False, False]
   \<and> (\<exists>txt. kb_content (snd (append_kb_all kb_absent [(capture_one, [u ''p''], u ''n.md''),
          (capture_one, [], u ''n.md''), (capture_marker_author, [], [])])) = Some txt
              \<and> occurrences txt (kb_marker (u ''1'')) = 1)"
proof -
  have h1: "case kb_content kb_absent of None \<Rightarrow> True
            | Some stored \<Rightarrow> \<not> contains (read_newlines stored) (kb_marker (u ''1''))"
    by (simp add: kb_absent_def)
  have h2: "\<forall>(data, points, lp)\<in>set [(capture_one, [u ''p''], u ''n.md''),
          (capture_one, [], u ''n.md''), (capture_marker_author, [], [])].
        target_status_id data = u ''1''"
    by (simp add: capture_one_def capture_marker_author_def)
  have h3: "13 \<notin> set (u ''1'')" by (simp add: u_def)
  have h4: "60 \<notin> set (u ''1'')" "60 \<notin> set (data_url capture_one)"
    "60 \<notin> set (data_author capture_one)" "60 \<notin> set (u ''n.md'')"
    "\<forall>p\<in>set (take 5 [u ''p'']). 60 \<notin> set p"
    by (simp_all add: capture_one_def u_def)
  note t = append_kb_idempotent [OF h1 h2 h3]
  from t have c1: "fst (append_kb_all kb_absent [(capture_one, [u ''p''], u ''n.md''),
          (capture_one, [], u ''n.md''), (capture_marker_author, [], [])]) = [True, False, False]"
    by (simp del: append_kb_all.simps)
  from t h4 have c2: "\<exists>txt. kb_content (snd (append_kb_all kb_absent [(capture_one, [u ''p''], u ''n.md''),
          (capture_one, [], u ''n.md''), (capture_marker_author, [], [])])) = Some txt
              \<and> occurrences txt (kb_marker (u ''1'')) = 1"
    by blast
  from h1 h2 h3 h4 c1 c2 show ?thesis
    unfolding list_all_iff by (intro conjI) assumption+
qed

text \<open>
  The claim as written promises one occurrence of the marker and \<open>False\<close> from every
  later call, for every capture. The entry repeats the capture's fields as they are:
  when the author field holds the marker text, the first call on a new file returns
  \<open>True\<close> and leaves two occurrences. And the file is read with universal newlines:
  the marker of a status id that ends in a carriage return is never read back, so a
  second call for the same capture appends and returns \<open>True\<close> again.
\<close>

theorem append_kb_marker_twice_counterexample:
  "fst (append_kb kb_absent capture_marker_author [] (u ''n.md'')) = True
   \<and> occurrences
        (the (kb_content (snd (append_kb kb_absent capture_marker_author [] (u ''n.md'')))))
        (kb_marker (target_status_id capture_marker_author)) = 2
   \<and> fst (append_kb_all kb_absent [(capture_cr, [], u ''n.md''), (capture_cr, [], u ''n.md'')])
       = [True, True]"
  by (simp add: kb_absent_def capture_marker_author_def capture_cr_def kb_eval)



section \<open>Properties of the chunking\<close>

lemma length_join: "ls \<noteq> [] \<Longrightarrow> length (join [10] ls) + 1 = lines_size ls"
  by (induction "[10::nat]" ls rule: join.induct) (auto simp: lines_size_def)

lemma join_append:
  "xs \<noteq> [] \<Longrightarrow> ys \<noteq> [] \<Longrightarrow> join sep (xs @ ys) = join sep xs @ sep @ join sep ys"
  by (induction sep xs rule: join.induct) (auto, (case_tac ys; simp)+)

lemma join_Cons: "ys \<noteq> [] \<Longrightarrow> join sep (x # ys) = x @ sep @ join sep ys"
  by (cases ys) auto

lemma join_map_join:
  "[] \<notin> set gs \<Longrightarrow> join sep (map (join sep) gs) = join sep (concat gs)"
proof (induction gs)
  case Nil
  then show ?case by simp
next
  case (Cons g gs)
  show ?case
  proof (cases "gs = []")
    case True
    then show ?thesis by simp
  next
    case False
    with Cons.prems have "concat gs \<noteq> []" "g \<noteq> []" by (cases gs; auto)+
    with Cons False show ?thesis by (simp add: join_Cons join_append)
  qed
qed

lemma chunk_loop_inv:
  assumes "chunk_loop C chunks buf sz ls = (chunks', buf', sz')"
    and "sz = lines_size buf"
    and "2 \<le> length buf \<longrightarrow> int sz \<le> C"
  shows "\<exists>gs. chunks' = chunks @ map (join [10]) gs
            \<and> concat gs @ buf' = buf @ ls
            \<and> [] \<notin> set gs
            \<and> (\<forall>g\<in>set gs. 2 \<le> length g \<longrightarrow> int (length (join [10] g)) < C)
            \<and> sz' = lines_size buf'
            \<and> (2 \<le> length buf' \<longrightarrow> int sz' \<le> C)"
  using assms
proof (induction ls arbitrary: chunks buf sz)
  case Nil
  then show ?case by (intro exI [of _ "[]"]) auto
next
  case (Cons line rest)
  show ?case
  proof (cases "int (sz + (length line + 1)) > C \<and> buf \<noteq> []")
    case True
    with Cons.prems(1) have run: "chunk_loop C (chunks @ [join [10] buf]) [line] (length line + 1) rest = (chunks', buf', sz')"
      by (simp add: Let_def)
    from Cons.IH [OF run] obtain gs where gs: "chunks' = (chunks @ [join [10] buf]) @ map (join [10]) gs"
      "concat gs @ buf' = [line] @ rest" "[] \<notin> set gs"
      "\<forall>g\<in>set gs. 2 \<le> length g \<longrightarrow> int (length (join [10] g)) < C"
      "sz' = lines_size buf'" "2 \<le> length buf' \<longrightarrow> int sz' \<le> C"
      by (auto simp: lines_size_def)
    have "2 \<le> length buf \<longrightarrow> int (length (join [10] buf)) < C"
      using Cons.prems(2,3) True length_join [of buf] by auto
    with gs True show ?thesis
      by (intro exI [of _ "buf # gs"]) auto
  next
    case False
    with Cons.prems(1) have run: "chunk_loop C chunks (buf @ [line]) (sz + (length line + 1)) rest = (chunks', buf', sz')"
      by (auto simp: Let_def)
    have i1: "sz + (length line + 1) = lines_size (buf @ [line])"
      using Cons.prems(2) by (simp add: lines_size_def)
    have i2: "2 \<le> length (buf @ [line]) \<longrightarrow> int (sz + (length line + 1)) \<le> C"
      using False by (cases buf) auto
    from Cons.IH [OF run i1 i2] show ?thesis by auto
  qed
qed

lemma splitlines_Cons_ne: "splitlines (c # cs) \<noteq> []"
proof (cases "c = 13")
  case True
  then show ?thesis by (cases cs) simp_all
next
  case False
  then show ?thesis by (cases "splitlines cs") simp_all
qed

lemma splitlines_Nil_iff: "splitlines t = [] \<longleftrightarrow> t = []"
  using splitlines_Cons_ne by (cases t) auto

lemma join_Cons_char: "join sep ((c # l) # ls) = c # join sep (l # ls)"
  by (cases ls) auto

lemma join_splitlines_gen:
  assumes "\<forall>c\<in>set t. is_linebreak c \<longrightarrow> c = 10"
  shows "join [10] (splitlines t) @ (if t \<noteq> [] \<and> last t = 10 then [10] else []) = t"
  using assms
proof (induction t)
  case Nil
  then show ?case by simp
next
  case (Cons c cs)
  then have IH: "join [10] (splitlines cs) @ (if cs \<noteq> [] \<and> last cs = 10 then [10] else []) = cs"
    by simp
  have c13: "c \<noteq> 13" using Cons.prems by (auto simp: is_linebreak_def)
  show ?case
  proof (cases "c = 10")
    case True
    show ?thesis
    proof (cases "cs = []")
      case True
      with \<open>c = 10\<close> show ?thesis by (simp add: is_linebreak_def)
    next
      case False
      then have "splitlines cs \<noteq> []" by (simp add: splitlines_Nil_iff)
      then have "join [10] ([] # splitlines cs) = 10 # join [10] (splitlines cs)"
        by (simp add: join_Cons)
      with IH False \<open>c = 10\<close> show ?thesis by (simp add: is_linebreak_def)
    qed
  next
    case False
    with Cons.prems have nb: "\<not> is_linebreak c" by auto
    show ?thesis
    proof (cases "splitlines cs")
      case Nil
      then have "cs = []" by (simp add: splitlines_Nil_iff)
      with nb c13 False show ?thesis by simp
    next
      case (Cons l ls)
      then have "cs \<noteq> []" by auto
      with IH Cons nb c13 False show ?thesis by (simp add: join_Cons_char)
    qed
  qed
qed

lemma join_splitlines:
  assumes "\<forall>c\<in>set t. is_linebreak c \<longrightarrow> c = 10" "t \<noteq> [] \<longrightarrow> last t \<noteq> 10"
  shows "join [10] (splitlines t) = t"
  using join_splitlines_gen [OF assms(1)] assms(2) by auto

lemma chunk_text_groups:
  "\<exists>gs. concat gs = splitlines body \<and> [] \<notin> set gs \<and> chunk_text body C = map (join [10]) gs
        \<and> (\<forall>g\<in>set gs. 2 \<le> length g \<longrightarrow> int (length (join [10] g)) < C)"
proof -
  obtain chunks buf sz where run: "chunk_loop C [] [] 0 (splitlines body) = (chunks, buf, sz)"
    by (metis prod_cases3)
  from chunk_loop_inv [OF run] obtain gs where gs: "chunks = map (join [10]) gs"
    "concat gs @ buf = splitlines body" "[] \<notin> set gs"
    "\<forall>g\<in>set gs. 2 \<le> length g \<longrightarrow> int (length (join [10] g)) < C"
    "sz = lines_size buf" "2 \<le> length buf \<longrightarrow> int sz \<le> C"
    by (auto simp: lines_size_def)
  show ?thesis
  proof (cases "buf = []")
    case True
    with gs run show ?thesis
      by (intro exI [of _ gs]) (simp add: chunk_text_def)
  next
    case False
    have "2 \<le> length buf \<longrightarrow> int (length (join [10] buf)) < C"
      using gs(5,6) length_join [OF False] by auto
    with gs run False show ?thesis
      by (intro exI [of _ "gs @ [buf]"]) (simp add: chunk_text_def)
  qed
qed

text \<open>
  Claim C2, as the code has it. For every text and every cap \<open>C\<close> (1800 in the call
  from \<open>notion_create_page\<close>): \<open>chunk_text\<close> never splits a line, its chunks being
  the newline-joins of consecutive non-empty groups of the lines of the text, in order
  and with no line left out; a chunk of two or more lines has fewer than \<open>C\<close>
  characters, so when no line is longer than \<open>C\<close> no chunk is; joining the chunks with
  newlines gives the lines of the text joined with newlines, which is the text itself
  when its only line terminator is the newline and it does not end with one.
\<close>

theorem chunk_text_whole_lines:
  "(\<exists>gs. concat gs = splitlines body \<and> [] \<notin> set gs \<and> chunk_text body C = map (join [10]) gs
        \<and> (\<forall>g\<in>set gs. 2 \<le> length g \<longrightarrow> int (length (join [10] g)) < C))
   \<and> join [10] (chunk_text body C) = join [10] (splitlines body)
   \<and> ((\<forall>l\<in>set (splitlines body). int (length l) \<le> C)
        \<longrightarrow> (\<forall>c\<in>set (chunk_text body C). int (length c) \<le> C))
   \<and> ((\<forall>c\<in>set body. is_linebreak c \<longrightarrow> c = 10) \<and> (body \<noteq> [] \<longrightarrow> last body \<noteq> 10)
        \<longrightarrow> join [10] (chunk_text body C) = body)"
proof -
  from chunk_text_groups [of body C] obtain gs where gs: "concat gs = splitlines body"
    "[] \<notin> set gs" "chunk_text body C = map (join [10]) gs"
    "\<forall>g\<in>set gs. 2 \<le> length g \<longrightarrow> int (length (join [10] g)) < C"
    by blast
  have j: "join [10] (chunk_text body C) = join [10] (splitlines body)"
    using gs(1,2,3) by (simp add: join_map_join)
  have cap: "\<forall>c\<in>set (chunk_text body C). int (length c) \<le> C"
    if short: "\<forall>l\<in>set (splitlines body). int (length l) \<le> C"
  proof
    fix c assume "c \<in> set (chunk_text body C)"
    then obtain g where g: "g \<in> set gs" "c = join [10] g" using gs(3) by auto
    show "int (length c) \<le> C"
    proof (cases "2 \<le> length g")
      case True
      with gs(4) g show ?thesis by auto
    next
      case False
      moreover from g gs(2) have "g \<noteq> []" by auto
      ultimately obtain l where l: "g = [l]" by (cases g; cases "tl g"; auto)
      with g gs(1) have "l \<in> set (splitlines body)" by (metis UN_I list.set_intros(1) set_concat)
      with short l g show ?thesis by simp
    qed
  qed
  show ?thesis
    using gs j cap join_splitlines [of body] by (intro conjI impI) (blast, simp_all)
qed

theorem chunk_text_whole_lines_witness:
  "list_all (\<lambda>l. int (length l) \<le> 6) (splitlines chunk_sample)
   \<and> list_all (\<lambda>c. int (length c) \<le> 6) (chunk_text chunk_sample 6)
   \<and> list_all (\<lambda>c. is_linebreak c \<longrightarrow> c = 10) chunk_sample
   \<and> chunk_sample \<noteq> [] \<and> last chunk_sample \<noteq> 10
   \<and> join [10] (chunk_text chunk_sample 6) = chunk_sample
   \<and> chunk_text chunk_sample 6 = [u ''aaa'', u ''bb'' @ [10] @ u ''c'']"
proof -
  have h1: "\<forall>l\<in>set (splitlines chunk_sample). int (length l) \<le> 6"
    by (simp add: chunk_sample_def u_def is_linebreak_def)
  have h2: "\<forall>c\<in>set chunk_sample. is_linebreak c \<longrightarrow> c = 10"
    by (simp add: chunk_sample_def u_def is_linebreak_def)
  have h3: "chunk_sample \<noteq> []" "last chunk_sample \<noteq> 10"
    by (simp_all add: chunk_sample_def u_def)
  have h4: "chunk_text chunk_sample 6 = [u ''aaa'', u ''bb'' @ [10] @ u ''c'']"
    by (simp add: chunk_sample_def u_def is_linebreak_def chunk_text_def)
  from chunk_text_whole_lines [of chunk_sample 6] h1 h2 h3
  have c: "(\<forall>c\<in>set (chunk_text chunk_sample 6). int (length c) \<le> 6)"
    "join [10] (chunk_text chunk_sample 6) = chunk_sample"
    by blast+
  from h1 h2 h3 h4 c show ?thesis
    unfolding list_all_iff by (intro conjI) assumption+
qed

lemma chunk_text_single_line:
  assumes "\<forall>c\<in>set l. \<not> is_linebreak c" "l \<noteq> []"
  shows "chunk_text l C = [l]"
proof -
  have "splitlines l = [l]"
    using assms by (rule splitlines_no_break)
  then show ?thesis by (simp add: chunk_text_def)
qed

text \<open>
  The claim as written lets no chunk exceed the cap. The code never splits a line, so a
  line of 1801 characters is a chunk of 1801 characters at cap 1800.
\<close>

theorem chunk_exceeds_cap_counterexample:
  "chunk_text (replicate 1801 97) 1800 = [replicate 1801 97]
   \<and> length (replicate 1801 (97::nat)) > 1800"
proof -
  have a: "chunk_text (replicate 1801 97) 1800 = [replicate 1801 97]"
  proof (rule chunk_text_single_line)
    show "\<forall>c\<in>set (replicate 1801 (97::nat)). \<not> is_linebreak c"
      by (simp only: set_replicate_conv_if is_linebreak_def) simp
    show "replicate 1801 (97::nat) \<noteq> []"
      by (simp only: replicate_empty)
  qed
  have b: "length (replicate 1801 (97::nat)) > 1800"
    by (simp only: length_replicate)
  from a b show ?thesis by (rule conjI)
qed

section \<open>Properties of the capture retry protocol\<close>

lemma link_match_iff:
  "(\<exists>(link_sid, href)\<in>set ls. link_sid = sid) \<longleftrightarrow> sid \<in> fst ` set ls"
  by (induction ls) auto

lemma find_target_article_exact:
  assumes "sid \<noteq> []" "target_node_on_page arts sid"
  shows "\<exists>art. find_target_article arts sid = Inr art \<and> time_sid art = sid
           \<and> find (\<lambda>a. time_sid a = sid) arts = Some art"
proof -
  from assms(2) have ne: "arts \<noteq> []" by (auto simp: target_node_on_page_def)
  have same: "(\<lambda>art. time_sid art \<noteq> [] \<and> time_sid art = sid) = (\<lambda>a. time_sid a = sid)"
    using assms(1) by auto
  from assms(2) obtain art where a: "find (\<lambda>a. time_sid a = sid) arts = Some art"
    by (cases "find (\<lambda>a. time_sid a = sid) arts")
       (auto simp: target_node_on_page_def find_None_iff)
  then have "time_sid art = sid" by (auto simp: find_Some_iff)
  with a ne assms(1) show ?thesis by (simp add: find_target_article_def same)
qed

lemma find_target_article_fallback:
  assumes "sid \<noteq> []" "\<not> target_node_on_page arts sid" "mentioned_on_page arts sid"
  shows "\<exists>art. find_target_article arts sid = Inr art
           \<and> find (\<lambda>a. sid \<in> fst ` set (status_links a)) arts = Some art"
proof -
  from assms(3) have ne: "arts \<noteq> []" by (auto simp: mentioned_on_page_def)
  from assms(2) have none: "find (\<lambda>art. time_sid art \<noteq> [] \<and> time_sid art = sid) arts = None"
    by (auto simp: target_node_on_page_def find_None_iff)
  from assms(3) obtain art where a: "find (\<lambda>a. sid \<in> fst ` set (status_links a)) arts = Some art"
    by (cases "find (\<lambda>a. sid \<in> fst ` set (status_links a)) arts")
       (auto simp: mentioned_on_page_def find_None_iff)
  with none ne assms(1) show ?thesis
    by (simp add: find_target_article_def link_match_iff)
qed

lemma find_target_article_absent:
  assumes "sid \<noteq> []" "\<not> target_node_on_page arts sid" "\<not> mentioned_on_page arts sid"
  shows "find_target_article arts sid =
           Inl (if arts = [] then NoArticleFound else TargetNotFound sid)"
proof (cases "arts = []")
  case True
  then show ?thesis by (simp add: find_target_article_def)
next
  case False
  from assms(2) have "find (\<lambda>art. time_sid art \<noteq> [] \<and> time_sid art = sid) arts = None"
    by (auto simp: target_node_on_page_def find_None_iff)
  moreover from assms(3)
  have "find (\<lambda>art. \<exists>(link_sid, href)\<in>set (status_links art). link_sid = sid) arts = None"
    unfolding link_match_iff by (auto simp: mentioned_on_page_def find_None_iff)
  ultimately show ?thesis using False assms(1) by (simp add: find_target_article_def)
qed

lemma retry_loop_found:
  assumes "\<forall>j<n. \<exists>e. find_target_article (view p (position p + j)) sid = Inl e"
    and "find_target_article (view p (position p + n)) sid = Inr art"
    and "n \<le> k"
  shows "retry_loop (Suc k) le p sid =
           (Inr art, p\<lparr>position := position p + n, wheel_count := wheel_count p + n\<rparr>)"
  using assms
proof (induction n arbitrary: k p le)
  case 0
  then show ?case by (simp add: page_articles_def)
next
  case (Suc n)
  from Suc.prems(1) have "\<exists>e. find_target_article (view p (position p + 0)) sid = Inl e"
    by blast
  then obtain e where e: "find_target_article (page_articles p) sid = Inl e"
    by (auto simp: page_articles_def)
  from Suc.prems(3) obtain k' where k: "k = Suc k'" by (cases k) auto
  have "retry_loop (Suc k') (Some e) (mouse_wheel p) sid =
      (Inr art, (mouse_wheel p)\<lparr>position := position (mouse_wheel p) + n,
                 wheel_count := wheel_count (mouse_wheel p) + n\<rparr>)"
  proof (rule Suc.IH)
    show "\<forall>j<n. \<exists>e. find_target_article (view (mouse_wheel p) (position (mouse_wheel p) + j)) sid = Inl e"
    proof (intro allI impI)
      fix j assume "j < n"
      then have "Suc j < Suc n" by simp
      with Suc.prems(1) have "\<exists>e. find_target_article (view p (position p + Suc j)) sid = Inl e"
        by blast
      then show "\<exists>e. find_target_article (view (mouse_wheel p) (position (mouse_wheel p) + j)) sid = Inl e"
        by (simp add: mouse_wheel_def)
    qed
    show "find_target_article (view (mouse_wheel p) (position (mouse_wheel p) + n)) sid = Inr art"
      using Suc.prems(2) by (simp add: mouse_wheel_def)
    show "n \<le> k'" using Suc.prems(3) k by simp
  qed
  with e k show ?case by (simp add: mouse_wheel_def)
qed

lemma retry_loop_exhausted:
  assumes "\<forall>j\<le>k. find_target_article (view p (position p + j)) sid = Inl (err j)"
  shows "retry_loop (Suc k) le p sid =
           (Inl (err k), p\<lparr>position := position p + k, wheel_count := wheel_count p + k\<rparr>)"
  using assms
proof (induction k arbitrary: p le err)
  case 0
  then show ?case by (simp add: page_articles_def)
next
  case (Suc k)
  from Suc.prems have "find_target_article (view p (position p + 0)) sid = Inl (err 0)"
    by blast
  then have e: "find_target_article (page_articles p) sid = Inl (err 0)"
    by (simp add: page_articles_def)
  have "retry_loop (Suc k) (Some (err 0)) (mouse_wheel p) sid =
      (Inl (err (Suc k)),
       (mouse_wheel p)\<lparr>position := position (mouse_wheel p) + k,
                 wheel_count := wheel_count (mouse_wheel p) + k\<rparr>)"
  proof (rule Suc.IH [where err = "\<lambda>j. err (Suc j)"])
    show "\<forall>j\<le>k. find_target_article (view (mouse_wheel p) (position (mouse_wheel p) + j)) sid
            = Inl (err (Suc j))"
    proof (intro allI impI)
      fix j assume "j \<le> k"
      then have "Suc j \<le> Suc k" by simp
      with Suc.prems have "find_target_article (view p (position p + Suc j)) sid = Inl (err (Suc j))"
        by blast
      then show "find_target_article (view (mouse_wheel p) (position (mouse_wheel p) + j)) sid
            = Inl (err (Suc j))"
        by (simp add: mouse_wheel_def)
    qed
  qed
  with e show ?case by (simp add: mouse_wheel_def)
qed

lemma retries_found:
  assumes "N < 8"
    and "\<forall>k<N. \<exists>e. find_target_article (view p k) sid = Inl e"
    and "find_target_article (view p N) sid = Inr art"
  shows "find_target_article_with_retries p sid =
           (Inr art, p\<lparr>position := N, wheel_count := wheel_count p + N\<rparr>)"
proof -
  have "retry_loop (Suc 7) None (press_home p) sid =
      (Inr art, (press_home p)\<lparr>position := position (press_home p) + N,
                 wheel_count := wheel_count (press_home p) + N\<rparr>)"
    using assms by (intro retry_loop_found) (simp_all add: press_home_def)
  then show ?thesis
    by (simp add: find_target_article_with_retries_def press_home_def eval_nat_numeral)
qed

text \<open>
  Claim C3, as the code has it, for a non-empty status id. Let the first \<open>N\<close> pages,
  those after 0 to \<open>N - 1\<close> wheel steps from the top, show neither the target article
  node nor an article that mentions the status id. If \<open>N < 8\<close> and the page after \<open>N\<close>
  steps shows the target node, the lookup with retries returns the target, the first
  article of that page whose time permalink is the status id, and has performed
  exactly \<open>N\<close> wheel operations. If that page shows no target node but an article
  that mentions the status id, the first such article is returned instead, also after
  \<open>N\<close> wheel operations. If all eight pages show neither, the lookup performs seven
  wheel operations and raises the error of the eighth attempt: that the target status
  id was not found when that page shows an article, that no article was found when
  it shows none.
\<close>

theorem retry_protocol:
  "sid \<noteq> [] \<longrightarrow>
   (N < 8 \<and> (\<forall>k<N. \<not> target_node_on_page (view p k) sid \<and> \<not> mentioned_on_page (view p k) sid)
      \<and> target_node_on_page (view p N) sid \<longrightarrow>
      (\<exists>art. find_target_article_with_retries p sid =
                (Inr art, p\<lparr>position := N, wheel_count := wheel_count p + N\<rparr>)
             \<and> time_sid art = sid
             \<and> find (\<lambda>a. time_sid a = sid) (view p N) = Some art))
   \<and> (N < 8 \<and> (\<forall>k<N. \<not> target_node_on_page (view p k) sid \<and> \<not> mentioned_on_page (view p k) sid)
      \<and> \<not> target_node_on_page (view p N) sid \<and> mentioned_on_page (view p N) sid \<longrightarrow>
      (\<exists>art. find_target_article_with_retries p sid =
                (Inr art, p\<lparr>position := N, wheel_count := wheel_count p + N\<rparr>)
             \<and> find (\<lambda>a. sid \<in> fst ` set (status_links a)) (view p N) = Some art))
   \<and> ((\<forall>k<8. \<not> target_node_on_page (view p k) sid \<and> \<not> mentioned_on_page (view p k) sid) \<longrightarrow>
        find_target_article_with_retries p sid =
          (Inl (if view p 7 = [] then NoArticleFound else TargetNotFound sid),
           p\<lparr>position := 7, wheel_count := wheel_count p + 7\<rparr>))"
proof (intro impI conjI)
  assume sid: "sid \<noteq> []"
  assume a: "N < 8 \<and> (\<forall>k<N. \<not> target_node_on_page (view p k) sid \<and> \<not> mentioned_on_page (view p k) sid)
      \<and> target_node_on_page (view p N) sid"
  then have before: "\<forall>k<N. \<exists>e. find_target_article (view p k) sid = Inl e"
    using find_target_article_absent [OF sid] by blast
  from a find_target_article_exact [OF sid] obtain art where
    art: "find_target_article (view p N) sid = Inr art" "time_sid art = sid"
      "find (\<lambda>a. time_sid a = sid) (view p N) = Some art"
    by blast
  from a before art(1) have "find_target_article_with_retries p sid =
                (Inr art, p\<lparr>position := N, wheel_count := wheel_count p + N\<rparr>)"
    by (intro retries_found) simp_all
  with art show "\<exists>art. find_target_article_with_retries p sid =
                (Inr art, p\<lparr>position := N, wheel_count := wheel_count p + N\<rparr>)
             \<and> time_sid art = sid
             \<and> find (\<lambda>a. time_sid a = sid) (view p N) = Some art"
    by blast
next
  assume sid: "sid \<noteq> []"
  assume a: "N < 8 \<and> (\<forall>k<N. \<not> target_node_on_page (view p k) sid \<and> \<not> mentioned_on_page (view p k) sid)
      \<and> \<not> target_node_on_page (view p N) sid \<and> mentioned_on_page (view p N) sid"
  then have before: "\<forall>k<N. \<exists>e. find_target_article (view p k) sid = Inl e"
    using find_target_article_absent [OF sid] by blast
  from a find_target_article_fallback [OF sid] obtain art where
    art: "find_target_article (view p N) sid = Inr art"
      "find (\<lambda>a. sid \<in> fst ` set (status_links a)) (view p N) = Some art"
    by blast
  from a before art(1) have "find_target_article_with_retries p sid =
                (Inr art, p\<lparr>position := N, wheel_count := wheel_count p + N\<rparr>)"
    by (intro retries_found) simp_all
  with art show "\<exists>art. find_target_article_with_retries p sid =
                (Inr art, p\<lparr>position := N, wheel_count := wheel_count p + N\<rparr>)
             \<and> find (\<lambda>a. sid \<in> fst ` set (status_links a)) (view p N) = Some art"
    by blast
next
  assume sid: "sid \<noteq> []"
  assume a: "\<forall>k<8. \<not> target_node_on_page (view p k) sid \<and> \<not> mentioned_on_page (view p k) sid"
  have "retry_loop (Suc 7) None (press_home p) sid =
      (Inl (if view p 7 = [] then NoArticleFound else TargetNotFound sid),
       (press_home p)\<lparr>position := position (press_home p) + 7,
                 wheel_count := wheel_count (press_home p) + 7\<rparr>)"
  proof (rule retry_loop_exhausted
      [where err = "\<lambda>j. if view p j = [] then NoArticleFound else TargetNotFound sid"])
    show "\<forall>j\<le>7. find_target_article (view (press_home p) (position (press_home p) + j)) sid =
        Inl (if view p j = [] then NoArticleFound else TargetNotFound sid)"
      using a find_target_article_absent [OF sid] by (simp add: press_home_def)
  qed
  then show "find_target_article_with_retries p sid =
          (Inl (if view p 7 = [] then NoArticleFound else TargetNotFound sid),
           p\<lparr>position := 7, wheel_count := wheel_count p + 7\<rparr>)"
    by (simp add: find_target_article_with_retries_def press_home_def eval_nat_numeral)
qed

lemmas retry_eval = target_node_on_page_def mentioned_on_page_def other_article_def
  quoting_article_def target_article_def u_def

theorem retry_protocol_witness:
  "u ''42'' \<noteq> [] \<and> (3::nat) < 8
   \<and> list_all (\<lambda>k. \<not> target_node_on_page (view late_page k) (u ''42'')
                   \<and> \<not> mentioned_on_page (view late_page k) (u ''42'')) [0..<3]
   \<and> target_node_on_page (view late_page 3) (u ''42'')
   \<and> find_target_article_with_retries late_page (u ''42'') =
       (Inr target_article, late_page\<lparr>position := 3, wheel_count := 5\<rparr>)
   \<and> list_all (\<lambda>k. \<not> target_node_on_page (view mention_page k) (u ''42'')
                   \<and> \<not> mentioned_on_page (view mention_page k) (u ''42'')) [0..<2]
   \<and> \<not> target_node_on_page (view mention_page 2) (u ''42'')
   \<and> mentioned_on_page (view mention_page 2) (u ''42'')
   \<and> find_target_article_with_retries mention_page (u ''42'') =
       (Inr quoting_article, mention_page\<lparr>position := 2, wheel_count := 2\<rparr>)
   \<and> list_all (\<lambda>k. \<not> target_node_on_page (view never_page k) (u ''42'')
                   \<and> \<not> mentioned_on_page (view never_page k) (u ''42'')) [0..<8]
   \<and> find_target_article_with_retries never_page (u ''42'') =
       (Inl (TargetNotFound (u ''42'')), never_page\<lparr>position := 7, wheel_count := 7\<rparr>)"
proof -
  have s: "u ''42'' \<noteq> []" by (simp add: u_def)
  have h1: "\<forall>k<3. \<not> target_node_on_page (view late_page k) (u ''42'')
                   \<and> \<not> mentioned_on_page (view late_page k) (u ''42'')"
    by (simp add: late_page_def retry_eval)
  have h2: "target_node_on_page (view late_page 3) (u ''42'')"
    by (simp add: late_page_def retry_eval)
  have f1: "find (\<lambda>a. time_sid a = u ''42'') (view late_page 3) = Some target_article"
    by (simp add: late_page_def retry_eval)
  from retry_protocol [of "u ''42''" 3 late_page] s h1 h2 f1
  have c1: "find_target_article_with_retries late_page (u ''42'') =
       (Inr target_article, late_page\<lparr>position := 3, wheel_count := 5\<rparr>)"
    by (auto simp: late_page_def)
  have h3: "\<forall>k<2. \<not> target_node_on_page (view mention_page k) (u ''42'')
                   \<and> \<not> mentioned_on_page (view mention_page k) (u ''42'')"
    by (simp add: mention_page_def retry_eval)
  have h4: "\<not> target_node_on_page (view mention_page 2) (u ''42'')"
    "mentioned_on_page (view mention_page 2) (u ''42'')"
    by (simp_all add: mention_page_def retry_eval)
  have f2: "find (\<lambda>a. u ''42'' \<in> fst ` set (status_links a)) (view mention_page 2)
      = Some quoting_article"
    by (simp add: mention_page_def retry_eval)
  from retry_protocol [of "u ''42''" 2 mention_page] s h3 h4 f2
  have c2: "find_target_article_with_retries mention_page (u ''42'') =
       (Inr quoting_article, mention_page\<lparr>position := 2, wheel_count := 2\<rparr>)"
    by (auto simp: mention_page_def)
  have h5: "\<forall>k<8. \<not> target_node_on_page (view never_page k) (u ''42'')
                   \<and> \<not> mentioned_on_page (view never_page k) (u ''42'')"
    by (simp add: never_page_def retry_eval)
  from retry_protocol [of "u ''42''" 0 never_page] s h5
  have c3: "find_target_article_with_retries never_page (u ''42'') =
       (Inl (TargetNotFound (u ''42'')), never_page\<lparr>position := 7, wheel_count := 7\<rparr>)"
    by (simp add: never_page_def)
  have l1: "list_all (\<lambda>k. \<not> target_node_on_page (view late_page k) (u ''42'')
                   \<and> \<not> mentioned_on_page (view late_page k) (u ''42'')) [0..<3]"
    using h1 by (simp add: list_all_iff)
  have l2: "list_all (\<lambda>k. \<not> target_node_on_page (view mention_page k) (u ''42'')
                   \<and> \<not> mentioned_on_page (view mention_page k) (u ''42'')) [0..<2]"
    using h3 by (simp add: list_all_iff)
  have l3: "list_all (\<lambda>k. \<not> target_node_on_page (view never_page k) (u ''42'')
                   \<and> \<not> mentioned_on_page (view never_page k) (u ''42'')) [0..<8]"
    using h5 by (simp add: list_all_iff)
  from s l1 h2 c1 l2 h4 c2 l3 c3 show ?thesis by simp
qed

text \<open>
  The claim as written fails in two ways. On a feed that shows no article at all the
  error raised after the eighth attempt is the other one, "No tweet article found on
  page". And on a feed whose first page shows an article quoting status 42, while the
  target node is mounted only at the third wheel step, the lookup returns the quoting
  article at once, without any wheel operation.
\<close>

theorem retry_protocol_counterexample:
  "find_target_article_with_retries empty_page (u ''1'') =
     (Inl NoArticleFound, empty_page\<lparr>position := 7, wheel_count := 7\<rparr>)
   \<and> NoArticleFound \<noteq> TargetNotFound (u ''1'')
   \<and> \<not> target_node_on_page (view quoted_page 0) (u ''42'')
   \<and> \<not> target_node_on_page (view quoted_page 1) (u ''42'')
   \<and> \<not> target_node_on_page (view quoted_page 2) (u ''42'')
   \<and> target_node_on_page (view quoted_page 3) (u ''42'')
   \<and> find_target_article_with_retries quoted_page (u ''42'') = (Inr quoting_article, quoted_page)
   \<and> time_sid quoting_article \<noteq> u ''42''
   \<and> wheel_count quoted_page = 0"
  by (simp add: find_target_article_with_retries_def empty_page_def quoted_page_def
      press_home_def mouse_wheel_def page_articles_def find_target_article_def
      eval_nat_numeral retry_eval)

section \<open>Properties of the capture with fallback\<close>


lemma sample_link_id: "extract_status_id ascii_dv sample_link = u ''42''"
  by (simp add: sample_link_def u_def startswith_def ascii_dv_def)




section \<open>Properties of the batch run\<close>

lemma process_link_invalid:
  "extract_status_id dv link = [] \<Longrightarrow>
     process_link env dv args w link = (Failed (link @ u '': Invalid X link: '' @ link), w)"
  by (simp add: process_link_def capture_if_needed_def u_def)

lemma process_link_loadable:
  assumes "extract_status_id dv link \<noteq> []"
    and "capture_files w (extract_status_id dv link) = Some (Inr data)"
  shows "process_link env dv args w link = (Processed (item_of dv link data), w)"
  using assms by (simp add: process_link_def capture_if_needed_def)

lemma process_link_names_link:
  "process_link env dv args w link = (Failed e, w') \<Longrightarrow> contains e link"
  using contains_self_prefix [of link] contains_append [of "u ''missing capture: ''" link "[]"]
  by (auto simp: process_link_def split: prod.splits sum.splits option.splits)

lemma process_link_step:
  assumes "process_link env dv args w link = (out, w1)"
  shows "link_step env dv args link w w1 (entry_of out)"
proof (cases "extract_status_id dv link = []")
  case True
  with assms show ?thesis
    using process_link_invalid [of dv link env args w]
    by (auto simp: link_step_def entry_of_def)
next
  case sid: False
  show ?thesis
  proof (cases "capture_files w (extract_status_id dv link) = None \<and> arg_fetch args")
    case False
    with sid have "capture_if_needed env dv w link (arg_browser args) (arg_proxy args)
        (arg_fetch args) = (Inr (extract_status_id dv link), w)"
      by (auto simp: capture_if_needed_def)
    with assms sid False show ?thesis
      by (auto simp: process_link_def link_step_def entry_of_def
          split: option.splits sum.splits)
  next
    case True
    obtain r w2 where f: "fetch_run env w ([FETCH_SCRIPT, link, arg_browser args]
                    @ (if arg_proxy args \<noteq> [] then [arg_proxy args] else [])) = (r, w2)"
      by (metis prod.collapse)
    with sid True have "capture_if_needed env dv w link (arg_browser args) (arg_proxy args)
        (arg_fetch args) =
        (case r of Some exc \<Rightarrow> (Inl exc, w2) | None \<Rightarrow> (Inr (extract_status_id dv link), w2))"
      by (simp add: capture_if_needed_def split: option.splits)
    with assms sid True f show ?thesis
      by (cases r)
         (auto simp: process_link_def link_step_def entry_of_def
          split: option.splits sum.splits)
  qed
qed

lemma link_step_names:
  assumes "link_step env dv args link before after (Some e)"
  shows "e = u ''missing capture: '' @ link \<or> (\<exists>exc. e = link @ u '': '' @ exc)"
proof -
  have "link @ u '': Invalid X link: '' @ link = link @ u '': '' @ (u ''Invalid X link: '' @ link)"
    by (simp add: u_def)
  then have inv: "\<exists>exc. link @ u '': Invalid X link: '' @ link = link @ u '': '' @ exc"
    by blast
  from assms inv show ?thesis
    unfolding link_step_def
    by (auto split: if_splits prod.splits option.splits sum.splits)
qed

lemma batch_loop_trace:
  assumes "batch_loop env dv args w its errors links = (its', errors', w')"
  shows "\<exists>ws entries. length entries = length links \<and> length ws = Suc (length links)
           \<and> ws ! 0 = w
           \<and> length its' = length its + length (filter (\<lambda>e. e = None) entries)
           \<and> errors' = errors @ List.map_filter (\<lambda>e. e) entries
           \<and> (\<forall>i<length links. link_step env dv args (links ! i) (ws ! i) (ws ! Suc i)
                  (entries ! i))"
  using assms
proof (induction links arbitrary: w its errors)
  case Nil
  then have "length [] = length ([] :: ustr list) \<and> length [w] = Suc (length ([] :: ustr list))
           \<and> [w] ! 0 = w
           \<and> length its' = length its + length (filter (\<lambda>e. e = None) ([] :: ustr option list))
           \<and> errors' = errors @ List.map_filter (\<lambda>e. e) ([] :: ustr option list)"
    by (simp add: List.map_filter_simps)
  then show ?case by (intro exI [of _ "[w]"] exI [of _ "[]"]) simp
next
  case (Cons link rest)
  obtain out w1 where p: "process_link env dv args w link = (out, w1)"
    by (cases "process_link env dv args w link") auto
  have step: "link_step env dv args link w w1 (entry_of out)"
    using p by (rule process_link_step)
  obtain its1 errors1 where acc: "its1 = (case out of Processed item \<Rightarrow> its @ [item] | Failed e \<Rightarrow> its)"
    "errors1 = (case out of Processed item \<Rightarrow> errors | Failed e \<Rightarrow> errors @ [e])"
    by blast
  with p Cons.prems have "batch_loop env dv args w1 its1 errors1 rest = (its', errors', w')"
    by (cases out) simp_all
  from Cons.IH [OF this] obtain ws entries where r: "length entries = length rest"
    "length ws = Suc (length rest)" "ws ! 0 = w1"
    "length its' = length its1 + length (filter (\<lambda>e. e = None) entries)"
    "errors' = errors1 @ List.map_filter (\<lambda>e. e) entries"
    "\<forall>i<length rest. link_step env dv args (rest ! i) (ws ! i) (ws ! Suc i) (entries ! i)"
    by blast
  have l: "length its' = length its + length (filter (\<lambda>e. e = None) (entry_of out # entries))"
    using r(4) acc(1) by (cases out) (simp_all add: entry_of_def)
  have e: "errors' = errors @ List.map_filter (\<lambda>e. e) (entry_of out # entries)"
    using r(5) acc(2) by (cases out) (simp_all add: entry_of_def List.map_filter_simps)
  have s: "link_step env dv args ((link # rest) ! i) ((w # ws) ! i) ((w # ws) ! Suc i)
        ((entry_of out # entries) ! i)" if "i < length (link # rest)" for i
  proof (cases i)
    case 0
    with step r(3) show ?thesis by simp
  next
    case (Suc j)
    with that r(6) show ?thesis by simp
  qed
  from r(1,2) l e s show ?case
    by (intro exI [of _ "w # ws"] exI [of _ "entry_of out # entries"]) simp
qed

lemma batch_loop_append:
  "batch_loop env dv args w its errors (xs @ ys) =
     (case batch_loop env dv args w its errors xs of
        (its1, errors1, w1) \<Rightarrow> batch_loop env dv args w1 its1 errors1 ys)"
  by (induction xs arbitrary: w its errors)
     (auto split: prod.splits link_outcome.splits)

lemma batch_loop_loadable:
  assumes "\<forall>link\<in>set links. loadable dv w link"
  shows "\<exists>new_items. length new_items = length links \<and>
           batch_loop env dv args w its errors links = (its @ new_items, errors, w)"
  using assms
proof (induction links arbitrary: its)
  case Nil
  then show ?case by simp
next
  case (Cons link rest)
  then obtain data where d: "extract_status_id dv link \<noteq> []"
    "capture_files w (extract_status_id dv link) = Some (Inr data)"
    by (auto simp: loadable_def)
  from Cons obtain ni where ni: "length ni = length rest"
    "batch_loop env dv args w (its @ [item_of dv link data]) errors rest
       = ((its @ [item_of dv link data]) @ ni, errors, w)"
    by fastforce
  with process_link_loadable [OF d, of env args] show ?case
    by (intro exI [of _ "item_of dv link data # ni"]) simp
qed

text \<open>
  Claim C6, as the code has it. The loop handles every link of the links file in
  order, whatever happens to the links before it, and each link either counts in
  \<open>processed\<close> or leaves one entry in the errors list; the entries of the links come
  in the order of the links, and after them only the errors of the Notion step.
  \<open>entries\<close> gives for each link its entry (\<open>None\<close> for a processed link) and \<open>ws\<close> the
  capture directory before each link. Every failure is recorded as an entry naming the
  link:

  \<^item> a link without \<open>/status/<id>\<close> has the entry "<link>: Invalid X link: <link>";
  \<^item> when the capture file is missing and \<open>--fetch\<close> is given, the fetch script runs; if
    it raises, the entry is "<link>: <message>";
  \<^item> otherwise the capture file is looked up (after the fetch, if there was one): with no
    file the entry is "missing capture: <link>", with a file that does not load the
    entry is "<link>: <message>", and with a file that loads the link is processed.

  If exactly one link lacks a status id and every other link has a capture file that
  loads, then \<open>processed = links - 1\<close> and the only link entry is the one of the
  malformed link.
\<close>

theorem batch_partial_failure:
  "\<exists>ws entries.
      length entries = length (load_links file_text)
    \<and> length ws = Suc (length (load_links file_text)) \<and> ws ! 0 = w
    \<and> result_links (batch_main env dv args w file_text) = length (load_links file_text)
    \<and> result_processed (batch_main env dv args w file_text)
        = length (filter (\<lambda>e. e = None) entries)
    \<and> result_errors (batch_main env dv args w file_text)
        = List.map_filter (\<lambda>e. e) entries @ notion_errors env args
    \<and> result_processed (batch_main env dv args w file_text)
        + length (List.map_filter (\<lambda>e. e) entries) = length (load_links file_text)
    \<and> (\<forall>i<length (load_links file_text).
          if extract_status_id dv (load_links file_text ! i) = []
          then ws ! Suc i = ws ! i
             \<and> entries ! i = Some (load_links file_text ! i @ u '': Invalid X link: ''
                                     @ load_links file_text ! i)
          else if capture_files (ws ! i) (extract_status_id dv (load_links file_text ! i)) = None
                  \<and> arg_fetch args
          then (case fetch_run env (ws ! i) ([FETCH_SCRIPT, load_links file_text ! i, arg_browser args]
                    @ (if arg_proxy args \<noteq> [] then [arg_proxy args] else [])) of
              (Some exc, w') \<Rightarrow> ws ! Suc i = w'
                 \<and> entries ! i = Some (load_links file_text ! i @ u '': '' @ exc)
            | (None, w') \<Rightarrow> ws ! Suc i = w' \<and> entries ! i =
                (case capture_files w' (extract_status_id dv (load_links file_text ! i)) of
                   None \<Rightarrow> Some (u ''missing capture: '' @ load_links file_text ! i)
                 | Some (Inl exc) \<Rightarrow> Some (load_links file_text ! i @ u '': '' @ exc)
                 | Some (Inr data) \<Rightarrow> None))
          else ws ! Suc i = ws ! i \<and> entries ! i =
             (case capture_files (ws ! i) (extract_status_id dv (load_links file_text ! i)) of
                None \<Rightarrow> Some (u ''missing capture: '' @ load_links file_text ! i)
              | Some (Inl exc) \<Rightarrow> Some (load_links file_text ! i @ u '': '' @ exc)
              | Some (Inr data) \<Rightarrow> None))
    \<and> (\<forall>i<length (load_links file_text). \<forall>e. entries ! i = Some e \<longrightarrow>
          e = u ''missing capture: '' @ load_links file_text ! i
          \<or> (\<exists>exc. e = load_links file_text ! i @ u '': '' @ exc))
    \<and> (\<forall>pre bad post.
          load_links file_text = pre @ [bad] @ post \<and> extract_status_id dv bad = []
            \<and> (\<forall>link\<in>set (pre @ post). loadable dv w link) \<longrightarrow>
          result_processed (batch_main env dv args w file_text)
            = length (load_links file_text) - 1
          \<and> List.map_filter (\<lambda>e. e) entries = [bad @ u '': Invalid X link: '' @ bad])"
proof -
  define links where "links = load_links file_text"
  obtain its errors w' where run: "batch_loop env dv args w [] [] links = (its, errors, w')"
    by (metis prod_cases3)
  then have r: "batch_main env dv args w file_text =
      \<lparr>result_links = length links, result_processed = length its,
       result_errors = errors @ notion_errors env args\<rparr>"
    by (simp add: batch_main_def links_def)
  from batch_loop_trace [OF run] obtain ws entries where t:
    "length entries = length links" "length ws = Suc (length links)" "ws ! 0 = w"
    "length its = length (filter (\<lambda>e. e = None) entries)"
    "errors = List.map_filter (\<lambda>e. e) entries"
    and steps: "\<forall>i<length links. link_step env dv args (links ! i) (ws ! i) (ws ! Suc i)
                  (entries ! i)"
    by auto
  have "length (filter (\<lambda>e. e = None) entries) + length (filter (\<lambda>e. e \<noteq> None) entries)
      = length entries"
    using sum_length_filter_compl [of "\<lambda>e. e = None" entries] by simp
  then have count: "length its + length (List.map_filter (\<lambda>e. e) entries) = length links"
    using t(1,4) by (simp add: List.map_filter_def)
  have names: "\<forall>i<length links. \<forall>e. entries ! i = Some e \<longrightarrow>
          e = u ''missing capture: '' @ links ! i \<or> (\<exists>exc. e = links ! i @ u '': '' @ exc)"
    using steps link_step_names by metis
  have one: "length its = length links - 1
      \<and> List.map_filter (\<lambda>e. e) entries = [bad @ u '': Invalid X link: '' @ bad]"
    if h: "links = pre @ [bad] @ post \<and> extract_status_id dv bad = []
            \<and> (\<forall>link\<in>set (pre @ post). loadable dv w link)"
    for pre bad post
  proof -
    from h have lp: "\<forall>link\<in>set pre. loadable dv w link"
      and lq: "\<forall>link\<in>set post. loadable dv w link" by auto
    from batch_loop_loadable [OF lp, of env args "[]" "[]"]
    obtain n1 where n1: "length n1 = length pre"
      "batch_loop env dv args w [] [] pre = ([] @ n1, [], w)" by blast
    from batch_loop_loadable [OF lq, of env args n1 "[bad @ u '': Invalid X link: '' @ bad]"]
    obtain n2 where n2: "length n2 = length post"
      "batch_loop env dv args w n1 [bad @ u '': Invalid X link: '' @ bad] post
         = (n1 @ n2, [bad @ u '': Invalid X link: '' @ bad], w)" by blast
    from h have "batch_loop env dv args w [] [] links =
        (n1 @ n2, [bad @ u '': Invalid X link: '' @ bad], w)"
      using n1 n2 process_link_invalid [of dv bad env args w]
      by (simp add: batch_loop_append)
    with run n1 n2 h t(5) show ?thesis by simp
  qed
  have "length entries = length links
    \<and> length ws = Suc (length links) \<and> ws ! 0 = w
    \<and> length links = length links
    \<and> length its = length (filter (\<lambda>e. e = None) entries)
    \<and> errors @ notion_errors env args = List.map_filter (\<lambda>e. e) entries @ notion_errors env args
    \<and> length its + length (List.map_filter (\<lambda>e. e) entries) = length links
    \<and> (\<forall>i<length links. link_step env dv args (links ! i) (ws ! i) (ws ! Suc i) (entries ! i))
    \<and> (\<forall>i<length links. \<forall>e. entries ! i = Some e \<longrightarrow>
          e = u ''missing capture: '' @ links ! i \<or> (\<exists>exc. e = links ! i @ u '': '' @ exc))
    \<and> (\<forall>pre bad post.
          links = pre @ [bad] @ post \<and> extract_status_id dv bad = []
            \<and> (\<forall>link\<in>set (pre @ post). loadable dv w link) \<longrightarrow>
          length its = length links - 1
          \<and> List.map_filter (\<lambda>e. e) entries = [bad @ u '': Invalid X link: '' @ bad])"
    using t count steps names one by (intro conjI allI impI) (assumption | simp | blast)+
  then show ?thesis
    unfolding r links_def [symmetric] link_step_def batch_result.select_convs
    by (intro exI [of _ ws] exI [of _ entries])
qed

lemma links_file_links: "load_links links_file = [u ''not a link'', sample_link]"
  by (simp add: load_links_def links_file_def sample_link_def u_def is_linebreak_def
      strip_def py_isspace_def startswith_def)

lemma not_a_link_id: "extract_status_id ascii_dv (u ''not a link'') = []"
  by (simp add: u_def startswith_def)

theorem batch_partial_failure_witness:
  "load_links links_file = [] @ [u ''not a link''] @ [sample_link]
   \<and> extract_status_id ascii_dv (u ''not a link'') = []
   \<and> list_all (loadable ascii_dv one_capture) ([] @ [sample_link])
   \<and> result_links (batch_main offline_env ascii_dv plain_args one_capture links_file) = 2
   \<and> result_processed (batch_main offline_env ascii_dv plain_args one_capture links_file) = 1
   \<and> result_errors (batch_main offline_env ascii_dv plain_args one_capture links_file) =
       [u ''not a link: Invalid X link: not a link'']
   \<and> batch_main offline_env ascii_dv plain_args broken_capture links_file =
       \<lparr>result_links = 2, result_processed = 0,
        result_errors = [u ''not a link: Invalid X link: not a link'',
          u ''https://x.com/a/status/42: Expecting value: line 1 column 1 (char 0)'']\<rparr>
   \<and> batch_main offline_env ascii_dv fetch_args no_captures links_file =
       \<lparr>result_links = 2, result_processed = 0,
        result_errors = [u ''not a link: Invalid X link: not a link'',
          u ''https://x.com/a/status/42: fetch failed'']\<rparr>"
proof -
  have h1: "load_links links_file = [] @ [u ''not a link''] @ [sample_link]"
    by (simp add: links_file_links)
  have h2: "\<forall>link\<in>set ([] @ [sample_link]). loadable ascii_dv one_capture link"
    by (simp add: loadable_def sample_link_id one_capture_def u_def)
  from batch_partial_failure [of links_file one_capture offline_env ascii_dv plain_args]
  obtain ws entries where
    a: "result_links (batch_main offline_env ascii_dv plain_args one_capture links_file)
          = length (load_links links_file)"
    and b: "result_errors (batch_main offline_env ascii_dv plain_args one_capture links_file)
          = List.map_filter (\<lambda>e. e) entries @ notion_errors offline_env plain_args"
    and c: "\<forall>pre bad post.
          load_links links_file = pre @ [bad] @ post \<and> extract_status_id ascii_dv bad = []
            \<and> (\<forall>link\<in>set (pre @ post). loadable ascii_dv one_capture link) \<longrightarrow>
          result_processed (batch_main offline_env ascii_dv plain_args one_capture links_file)
            = length (load_links links_file) - 1
          \<and> List.map_filter (\<lambda>e. e) entries = [bad @ u '': Invalid X link: '' @ bad]"
    by blast
  from c h1 h2 not_a_link_id
  have d: "result_processed (batch_main offline_env ascii_dv plain_args one_capture links_file)
            = length (load_links links_file) - 1
          \<and> List.map_filter (\<lambda>e. e) entries
              = [u ''not a link'' @ u '': Invalid X link: '' @ u ''not a link'']"
    by blast
  have n: "notion_errors offline_env plain_args = []"
    by (simp add: notion_errors_def plain_args_def)
  have l: "list_all (loadable ascii_dv one_capture) ([] @ [sample_link])"
    using h2 by (simp add: list_all_iff)
  have x: "batch_main offline_env ascii_dv plain_args broken_capture links_file =
       \<lparr>result_links = 2, result_processed = 0,
        result_errors = [u ''not a link: Invalid X link: not a link'',
          u ''https://x.com/a/status/42: Expecting value: line 1 column 1 (char 0)'']\<rparr>"
    unfolding batch_main_def links_file_links
    by (simp add: process_link_def capture_if_needed_def not_a_link_id sample_link_id
        broken_capture_def plain_args_def notion_errors_def Let_def)
       (simp add: u_def sample_link_def)
  have y: "batch_main offline_env ascii_dv fetch_args no_captures links_file =
       \<lparr>result_links = 2, result_processed = 0,
        result_errors = [u ''not a link: Invalid X link: not a link'',
          u ''https://x.com/a/status/42: fetch failed'']\<rparr>"
    unfolding batch_main_def links_file_links
    by (simp add: process_link_def capture_if_needed_def not_a_link_id sample_link_id
        no_captures_def fetch_args_def offline_env_def notion_errors_def Let_def)
       (simp add: u_def sample_link_def)
  from a b d n h1 not_a_link_id l have
    "load_links links_file = [] @ [u ''not a link''] @ [sample_link]
   \<and> extract_status_id ascii_dv (u ''not a link'') = []
   \<and> list_all (loadable ascii_dv one_capture) ([] @ [sample_link])
   \<and> result_links (batch_main offline_env ascii_dv plain_args one_capture links_file) = 2
   \<and> result_processed (batch_main offline_env ascii_dv plain_args one_capture links_file) = 1
   \<and> result_errors (batch_main offline_env ascii_dv plain_args one_capture links_file) =
       [u ''not a link: Invalid X link: not a link'']"
    by (simp add: links_file_links u_def)
  with x y show ?thesis by (simp only: simp_thms)
qed

text \<open>
  The claim as written gives \<open>processed = links - 1\<close> for every links file with one
  malformed line. Other links can fail too: with a malformed line and a link whose
  capture is missing (no fetch), two links give \<open>processed = 0\<close>.
\<close>

theorem batch_other_failure_counterexample:
  "load_links links_file = [u ''not a link'', sample_link]
   \<and> extract_status_id ascii_dv (u ''not a link'') = []
   \<and> extract_status_id ascii_dv sample_link = u ''42''
   \<and> result_links (batch_main offline_env ascii_dv plain_args no_captures links_file) = 2
   \<and> result_processed (batch_main offline_env ascii_dv plain_args no_captures links_file) = 0
   \<and> result_errors (batch_main offline_env ascii_dv plain_args no_captures links_file) =
       [u ''not a link: Invalid X link: not a link'',
        u ''missing capture: https://x.com/a/status/42'']"
proof -
  have "batch_main offline_env ascii_dv plain_args no_captures links_file =
      \<lparr>result_links = 2, result_processed = 0,
       result_errors = [u ''not a link: Invalid X link: not a link'',
        u ''missing capture: https://x.com/a/status/42'']\<rparr>"
    unfolding batch_main_def links_file_links
    by (simp add: process_link_def capture_if_needed_def not_a_link_id sample_link_id
        no_captures_def plain_args_def notion_errors_def)
       (simp add: u_def sample_link_def)
  with links_file_links not_a_link_id sample_link_id show ?thesis by simp
qed

section \<open>Properties of the queue round trip\<close>














lemma digit_not_space: "48 \<le> c \<Longrightarrow> c \<le> 57 \<Longrightarrow> \<not> py_isspace c"
  by (simp add: py_isspace_def)














































end
